theory Spec2Isabelle
  imports Complex_Main "HOL-Library.Char_ord" "HOL-Library.List_Lexorder" "HOL-Library.Sublist"
begin

section \<open>Numeric conventions\<close>

text \<open>
  The program computes with numpy's IEEE doubles. Every finite float is read here as the real
  number it denotes and every arithmetic operation as the exact operation on reals, so the
  rounding error of single operations is not part of the model. Python exceptions are values
  of the type \<open>error\<close>; a function that can raise returns \<open>error + 'a\<close>.
\<close>

datatype error =
    IndexError
  | WindowError real real
  | WindowErrorNaN real
  | KeyError
  | AmbiguousTruthValue
  | ItemSizeError

text \<open>
  \<open>WindowError s w\<close> is the \<open>ValueError\<close> of \<open>_rotate_into_window\<close>. Its message
  is an f-string with two interpolated quantities: the span, rendered by \<open>{span:.2f}\<close>, and
  \<open>window_width\<close>; \<open>s\<close> and \<open>w\<close> are the two numbers the message shows.
  \<open>WindowErrorNaN w\<close> is the same error when the span is not a number and the message
  shows \<open>nan\<close> in its place.
\<close>

text \<open>
  Python's \<open>%\<close> and \<open>np.mod\<close> on floats take the sign of the divisor; the only
  divisor in the program is 360.
\<close>

definition py_mod :: "real \<Rightarrow> real \<Rightarrow> real" where
  "py_mod x m = x - m * of_int \<lfloor>x / m\<rfloor>"

text \<open>
  \<open>ndarray.round(2)\<close> and the format \<open>.2f\<close> round to two decimals, a tie going to the
  even neighbour.
\<close>

definition round_half_even :: "real \<Rightarrow> int" where
  "round_half_even y =
     (let f = \<lfloor>y\<rfloor>; d = y - of_int f
      in if d < 1 / 2 then f else if 1 / 2 < d then f + 1 else if even f then f else f + 1)"

definition round2 :: "real \<Rightarrow> real" where
  "round2 x = of_int (round_half_even (x * 100)) / 100"

text \<open>
  \<open>np.diff\<close> gives the differences of consecutive entries; \<open>np.argmax\<close> returns the
  index of the first occurrence of the maximum, found by one pass that keeps the running
  best; \<open>np.clip\<close> is \<open>minimum(maximum(x, lo), hi)\<close>, also when \<open>lo > hi\<close>.
\<close>

fun np_diff :: "real list \<Rightarrow> real list" where
  "np_diff (x # y # zs) = (y - x) # np_diff (y # zs)"
| "np_diff [x] = []"
| "np_diff [] = []"

fun argmax_from :: "nat \<Rightarrow> real \<Rightarrow> nat \<Rightarrow> real list \<Rightarrow> nat" where
  "argmax_from best bv i [] = best"
| "argmax_from best bv i (x # xs) =
     (if bv < x then argmax_from i x (Suc i) xs else argmax_from best bv (Suc i) xs)"

definition np_argmax :: "real list \<Rightarrow> nat" where
  "np_argmax xs = (case xs of [] \<Rightarrow> 0 | x # rest \<Rightarrow> argmax_from 0 x 1 rest)"

definition np_clip :: "real \<Rightarrow> real \<Rightarrow> real \<Rightarrow> real" where
  "np_clip x lo hi = min (max x lo) hi"

section \<open>Window fitting\<close>

text \<open>
  \<open>_rotate_into_window\<close> of the source (an Isabelle name cannot start with an
  underscore). Indexing the empty sorted array raises \<open>IndexError\<close>.
\<close>

definition rotate_into_window ::
  "real list \<Rightarrow> real \<Rightarrow> real \<Rightarrow> error + (real list \<times> real \<times> real)" where
  "rotate_into_window angles_deg window_width atol =
     (let a = sort (map (\<lambda>x. py_mod x 360) angles_deg);
          N = length a
      in if N = 0 then Inl IndexError
         else
           let diffs = np_diff (a @ [a ! 0 + 360]);
               k = np_argmax diffs;
               max_gap = diffs ! k;
               span = 360 - max_gap
           in if span \<le> window_width + atol then
                let start = a ! ((k + 1) mod N);
                    c = - start;
                    rotated = map (\<lambda>x. py_mod (x + c) 360) angles_deg
                in Inr (map (\<lambda>x. np_clip x 0 window_width) rotated, c, span)
              else Inl (WindowError (round2 span) window_width))"

definition default_atol :: real where
  "default_atol = 1 / 10 ^ 9"

text \<open>
  The quantities the specification names, written from its words: the circular gaps of the
  sorted angles (the last one wraps from the last angle to the first plus 360) and the
  minimal span, 360 minus the widest gap.
\<close>

definition circular_gaps :: "real list \<Rightarrow> real list" where
  "circular_gaps a =
     map (\<lambda>i. (if Suc i < length a then a ! Suc i else a ! 0 + 360) - a ! i) [0..<length a]"

definition minimal_span :: "real list \<Rightarrow> real" where
  "minimal_span angles_deg =
     360 - Max (set (circular_gaps (sort (map (\<lambda>x. py_mod x 360) angles_deg))))"

text \<open>Names for the sorted reduced angles and for the index \<open>k\<close> the code picks.\<close>

definition sorted_angles :: "real list \<Rightarrow> real list" where
  "sorted_angles angles_deg = sort (map (\<lambda>x. py_mod x 360) angles_deg)"

definition widest_gap_index :: "real list \<Rightarrow> nat" where
  "widest_gap_index angles_deg = np_argmax (circular_gaps (sorted_angles angles_deg))"

text \<open>The angle right after the widest gap, which the rotation maps to 0.\<close>

definition rotation_start :: "real list \<Rightarrow> real" where
  "rotation_start angles =
     sorted_angles angles ! ((widest_gap_index angles + 1) mod length angles)"

section \<open>Phase steering\<close>

record info =
  rotation_deg :: real
  span_deg :: real

definition deg2rad :: "real \<Rightarrow> real" where
  "deg2rad x = x * (pi / 180)"

definition rad2deg :: "real \<Rightarrow> real" where
  "rad2deg x = x * (180 / pi)"

definition frequency :: real where
  "frequency = 5 * 10 ^ 9"

definition wavelength :: real where
  "wavelength = 3 * 10 ^ 8 / frequency"

definition wavenumber :: real where
  "wavenumber = 2 * pi / wavelength"

definition dphi_x :: "real \<Rightarrow> real \<Rightarrow> real \<Rightarrow> real" where
  "dphi_x theta_deg phi_deg dx =
     - wavenumber * dx * sin (deg2rad theta_deg) * cos (deg2rad phi_deg)"

definition dphi_y :: "real \<Rightarrow> real \<Rightarrow> real \<Rightarrow> real" where
  "dphi_y theta_deg phi_deg dy =
     - wavenumber * dy * sin (deg2rad theta_deg) * sin (deg2rad phi_deg)"

text \<open>
  The double loop of \<open>steering_phases\<close>: the outer loop runs over the column offset \<open>m\<close>,
  the inner one over the row offset \<open>n\<close>; \<open>base\<close> collects the wrapped phases and
  \<open>idx_map\<close> the cell \<open>(j, i)\<close> each one belongs to.
\<close>

definition base_phases :: "real \<Rightarrow> real \<Rightarrow> real \<Rightarrow> real \<Rightarrow> real list" where
  "base_phases theta_deg phi_deg dx dy =
     concat (map (\<lambda>m. map (\<lambda>n.
         py_mod (rad2deg (m * dphi_x theta_deg phi_deg dx + n * dphi_y theta_deg phi_deg dy)) 360)
       [-1, 0, 1]) [-1, 0, 1])"

definition idx_map :: "(nat \<times> nat) list" where
  "idx_map = concat (map (\<lambda>i. map (\<lambda>j. (j, i)) [0, 1, 2]) [0, 1, 2])"

definition restore_grid :: "real list \<Rightarrow> real list list" where
  "restore_grid rotated =
     fold (\<lambda>(val, (j, i)) phases. phases[j := (phases ! j)[i := val]])
       (zip rotated idx_map) (replicate 3 (replicate 3 0))"

definition steering_phases ::
  "real \<Rightarrow> real \<Rightarrow> real option \<Rightarrow> real option \<Rightarrow> real \<Rightarrow> error + (real list list \<times> info)" where
  "steering_phases theta_deg phi_deg dx dy max_phase =
     (let dx' = (case dx of None \<Rightarrow> 3 / 100 | Some d \<Rightarrow> d);
          dy' = (case dy of None \<Rightarrow> 3 / 100 | Some d \<Rightarrow> d);
          base = base_phases theta_deg phi_deg dx' dy'
      in case rotate_into_window base max_phase default_atol of
           Inl e \<Rightarrow> Inl e
         | Inr (rotated, c_deg, span_before) \<Rightarrow>
             Inr (restore_grid rotated, \<lparr>rotation_deg = c_deg, span_deg = span_before\<rparr>))"

section \<open>Voltage mapping\<close>

text \<open>
  The coefficient file is not part of the sources; the loaded archive is a parameter, a map
  from array names to two-dimensional arrays (one row of polynomial coefficients per
  frequency index). Reading the file itself is outside the model.
\<close>

definition volt_map :: "real \<Rightarrow> real list \<Rightarrow> real" where
  "volt_map phase coeffs =
     (let num = length coeffs
      in fold (\<lambda>i ret. ret + coeffs ! i * phase ^ (num - 1 - i)) [0..<num] 0)"

definition np_index :: "'a list \<Rightarrow> int \<Rightarrow> error + 'a" where
  "np_index rows idx =
     (if 0 \<le> idx \<and> idx < int (length rows) then Inr (rows ! nat idx)
      else if idx < 0 \<and> - int (length rows) \<le> idx then Inr (rows ! nat (int (length rows) + idx))
      else Inl IndexError)"

definition voltage_matrix :: "real list \<Rightarrow> real list list \<Rightarrow> real list list" where
  "voltage_matrix coeffs phases = map (map (\<lambda>p. volt_map p coeffs)) phases"

definition flatten_reversed :: "real list list \<Rightarrow> real list" where
  "flatten_reversed voltages = rev (concat (map (map round2) voltages))"

definition ris_voltage_vector ::
  "real \<Rightarrow> real \<Rightarrow> (string \<rightharpoonup> real list list) \<Rightarrow> int \<Rightarrow> real \<Rightarrow>
     error + (real list \<times> real list list \<times> real list list \<times> info)" where
  "ris_voltage_vector theta_deg phi_deg coeff_data freq_idx max_phase =
     (case coeff_data ''coefficients'' of
        None \<Rightarrow> Inl KeyError
      | Some coeffs \<Rightarrow>
          (case steering_phases theta_deg phi_deg None None max_phase of
             Inl e \<Rightarrow> Inl e
           | Inr (phases, diag) \<Rightarrow>
               (case np_index coeffs freq_idx of
                  Inl e \<Rightarrow> Inl e
                | Inr row \<Rightarrow>
                    let voltages = voltage_matrix row phases;
                        voltage_vector = flatten_reversed voltages
                    in Inr (voltage_vector, phases, voltages, diag))))"

definition reference_vector :: "real list" where
  "reference_vector = [78 / 10, 5, 0, 78 / 10, 5, 0, 78 / 10, 5, 0]"

section \<open>Calibration catalog\<close>

text \<open>
  A snapshot directory is the list of its files in the order \<open>os.listdir\<close> yields them,
  each with the arrays of its archive (an array is the list of its elements). Python's
  rendering of a number inside the label's f-string is the parameter \<open>fmt\<close>.
\<close>

type_synonym snapshot = "string \<rightharpoonup> real list"
type_synonym entry = "real \<times> real \<times> string \<times> real list"

record catalog_data =
  vector :: "real list"
  azimuth :: real
  elevation :: real

definition item :: "real list \<Rightarrow> error + real" where
  "item arr = (case arr of [x] \<Rightarrow> Inr x | _ \<Rightarrow> Inl ItemSizeError)"

definition make_label :: "(real \<Rightarrow> string) \<Rightarrow> real \<Rightarrow> real \<Rightarrow> string" where
  "make_label fmt el az = ''theta='' @ fmt el @ '', phi='' @ fmt az"

fun collect_entries :: "(real \<Rightarrow> string) \<Rightarrow> (string \<times> snapshot) list \<Rightarrow> error + entry list" where
  "collect_entries fmt [] = Inr []"
| "collect_entries fmt ((file, data) # rest) =
     (if suffix ''.npz'' file then
        (case (data ''ris_settings'', data ''target_azimuth'', data ''target_elevation'') of
           (Some settings, Some azs, Some els) \<Rightarrow>
             (case item azs of
                Inl e \<Rightarrow> Inl e
              | Inr az \<Rightarrow>
                  (case item els of
                     Inl e \<Rightarrow> Inl e
                   | Inr el \<Rightarrow>
                       (case collect_entries fmt rest of
                          Inl e \<Rightarrow> Inl e
                        | Inr es \<Rightarrow> Inr ((el, az, make_label fmt el az, map round2 settings) # es))))
         | _ \<Rightarrow> collect_entries fmt rest)
      else collect_entries fmt rest)"

text \<open>
  \<open>entries.sort()\<close> orders the tuples with Python's \<open><\<close> on tuples: the first position
  where the two tuples are unequal decides. On the fourth position the operands are numpy
  arrays, whose comparison is elementwise; its result has a truth value only when it has
  exactly one element, otherwise taking it raises \<open>ValueError\<close>.
\<close>

fun array_cmp :: "(real \<Rightarrow> real \<Rightarrow> bool) \<Rightarrow> real list \<Rightarrow> real list \<Rightarrow> error + bool" where
  "array_cmp rel [x] [y] = Inr (rel x y)"
| "array_cmp rel v w = Inl AmbiguousTruthValue"

fun entry_lt :: "entry \<Rightarrow> entry \<Rightarrow> error + bool" where
  "entry_lt (el1, az1, l1, v1) (el2, az2, l2, v2) =
     (if el1 \<noteq> el2 then Inr (el1 < el2)
      else if az1 \<noteq> az2 then Inr (az1 < az2)
      else if l1 \<noteq> l2 then Inr (l1 < l2)
      else (case array_cmp (=) v1 v2 of
              Inl e \<Rightarrow> Inl e
            | Inr True \<Rightarrow> Inr False
            | Inr False \<Rightarrow> array_cmp (<) v1 v2))"

text \<open>
  The sort is modelled as a stable insertion sort that raises as soon as a comparison
  raises. On a list of two entries it makes the one comparison CPython's sort makes
  (the second entry against the first).
\<close>

fun insert_entry :: "entry \<Rightarrow> entry list \<Rightarrow> error + entry list" where
  "insert_entry x [] = Inr [x]"
| "insert_entry x (y # ys) =
     (case entry_lt x y of
        Inl e \<Rightarrow> Inl e
      | Inr True \<Rightarrow> Inr (x # y # ys)
      | Inr False \<Rightarrow> (case insert_entry x ys of Inl e \<Rightarrow> Inl e | Inr zs \<Rightarrow> Inr (y # zs)))"

fun sort_entries_from :: "entry list \<Rightarrow> entry list \<Rightarrow> error + entry list" where
  "sort_entries_from acc [] = Inr acc"
| "sort_entries_from acc (x # xs) =
     (case insert_entry x acc of Inl e \<Rightarrow> Inl e | Inr acc' \<Rightarrow> sort_entries_from acc' xs)"

definition sort_entries :: "entry list \<Rightarrow> error + entry list" where
  "sort_entries es = sort_entries_from [] es"

definition load_data_from_directory ::
  "(real \<Rightarrow> string) \<Rightarrow> (string \<times> snapshot) list \<Rightarrow>
     error + (string list \<times> (string \<rightharpoonup> catalog_data))" where
  "load_data_from_directory fmt folder =
     (case collect_entries fmt folder of
        Inl e \<Rightarrow> Inl e
      | Inr entries \<Rightarrow>
          (case sort_entries entries of
             Inl e \<Rightarrow> Inl e
           | Inr sorted_entries \<Rightarrow>
               Inr (map (\<lambda>(el, az, label, v). label) sorted_entries,
                    map_of (rev (map (\<lambda>(el, az, label, v).
                      (label, \<lparr>vector = v, azimuth = az, elevation = el\<rparr>)) sorted_entries)))))"

text \<open>The wrapped phase of the grid offset \<open>(m, n)\<close>, one entry of \<open>base\<close>.\<close>

definition raw_phase :: "real \<Rightarrow> real \<Rightarrow> real \<Rightarrow> real \<Rightarrow> real \<Rightarrow> real \<Rightarrow> real" where
  "raw_phase theta_deg phi_deg dx dy m n =
     py_mod (rad2deg (m * dphi_x theta_deg phi_deg dx + n * dphi_y theta_deg phi_deg dy)) 360"

text \<open>Three snapshot archives used as concrete inputs of the catalog loader.\<close>

definition snapshot_a :: snapshot where
  "snapshot_a = [''ris_settings'' \<mapsto> [39 / 5, 5, 0, 39 / 5, 5, 0, 39 / 5, 5, 0],
                 ''target_azimuth'' \<mapsto> [50], ''target_elevation'' \<mapsto> [0]]"

definition snapshot_b :: snapshot where
  "snapshot_b = [''ris_settings'' \<mapsto> [0, 5, 39 / 5, 0, 5, 39 / 5, 0, 5, 39 / 5],
                 ''target_azimuth'' \<mapsto> [50], ''target_elevation'' \<mapsto> [0]]"

definition snapshot_c :: snapshot where
  "snapshot_c = [''ris_settings'' \<mapsto> [6, 6, 6, 24 / 5, 24 / 5, 24 / 5, 0, 0, 0],
                 ''target_azimuth'' \<mapsto> [0], ''target_elevation'' \<mapsto> [- 45]]"

section \<open>Not-a-number inputs\<close>

text \<open>
  A second reading of the two steering functions, in which a float is either a real number
  or NaN. Arithmetic with a NaN operand yields NaN and every comparison with NaN is false,
  as in IEEE arithmetic; on finite operands the operations are the exact ones used above.
  The suffix \<open>_nf\<close> marks the counterpart of a definition above.
\<close>

datatype npfloat = Fin real | NaN

fun nf1 :: "(real \<Rightarrow> real) \<Rightarrow> npfloat \<Rightarrow> npfloat" where
  "nf1 f (Fin x) = Fin (f x)"
| "nf1 f NaN = NaN"

fun nf2 :: "(real \<Rightarrow> real \<Rightarrow> real) \<Rightarrow> npfloat \<Rightarrow> npfloat \<Rightarrow> npfloat" where
  "nf2 f (Fin x) (Fin y) = Fin (f x y)"
| "nf2 f _ _ = NaN"

fun nf_le :: "npfloat \<Rightarrow> npfloat \<Rightarrow> bool" where
  "nf_le (Fin x) (Fin y) = (x \<le> y)"
| "nf_le _ _ = False"

fun finite_values :: "npfloat list \<Rightarrow> real list" where
  "finite_values [] = []"
| "finite_values (Fin x # xs) = x # finite_values xs"
| "finite_values (NaN # xs) = finite_values xs"

text \<open>\<open>np.sort\<close> orders the numbers and puts every NaN at the end.\<close>

definition nf_sort :: "npfloat list \<Rightarrow> npfloat list" where
  "nf_sort xs = map Fin (sort (finite_values xs)) @ filter (\<lambda>x. x = NaN) xs"

fun nf_diff :: "npfloat list \<Rightarrow> npfloat list" where
  "nf_diff (x # y # zs) = nf2 (-) y x # nf_diff (y # zs)"
| "nf_diff [x] = []"
| "nf_diff [] = []"

text \<open>
  \<open>np.argmax\<close> keeps the first element that is not below or equal to the running
  maximum, and stops at the first NaN, whose index it returns.
\<close>

fun nf_argmax_from :: "nat \<Rightarrow> npfloat \<Rightarrow> nat \<Rightarrow> npfloat list \<Rightarrow> nat" where
  "nf_argmax_from best bv i [] = best"
| "nf_argmax_from best bv i (x # xs) =
     (if \<not> nf_le x bv then (if x = NaN then i else nf_argmax_from i x (Suc i) xs)
      else nf_argmax_from best bv (Suc i) xs)"

definition nf_argmax :: "npfloat list \<Rightarrow> nat" where
  "nf_argmax xs =
     (case xs of [] \<Rightarrow> 0 | x # rest \<Rightarrow> if x = NaN then 0 else nf_argmax_from 0 x 1 rest)"

definition rotate_into_window_nf ::
  "npfloat list \<Rightarrow> real \<Rightarrow> real \<Rightarrow> error + (npfloat list \<times> npfloat \<times> npfloat)" where
  "rotate_into_window_nf angles_deg window_width atol =
     (let a = nf_sort (map (nf1 (\<lambda>x. py_mod x 360)) angles_deg);
          N = length a
      in if N = 0 then Inl IndexError
         else
           let diffs = nf_diff (a @ [nf2 (+) (a ! 0) (Fin 360)]);
               k = nf_argmax diffs;
               max_gap = diffs ! k;
               span = nf2 (-) (Fin 360) max_gap
           in if nf_le span (Fin (window_width + atol)) then
                let start = a ! ((k + 1) mod N);
                    c = nf1 uminus start;
                    rotated = map (\<lambda>x. nf1 (\<lambda>y. py_mod y 360) (nf2 (+) x c)) angles_deg
                in Inr (map (nf1 (\<lambda>y. np_clip y 0 window_width)) rotated, c, span)
              else Inl (case span of
                          Fin s \<Rightarrow> WindowError (round2 s) window_width
                        | NaN \<Rightarrow> WindowErrorNaN window_width))"

definition dphi_x_nf :: "npfloat \<Rightarrow> npfloat \<Rightarrow> real \<Rightarrow> npfloat" where
  "dphi_x_nf theta_deg phi_deg dx =
     nf2 (*) (nf2 (*) (Fin (- wavenumber * dx)) (nf1 sin (nf1 deg2rad theta_deg)))
       (nf1 cos (nf1 deg2rad phi_deg))"

definition dphi_y_nf :: "npfloat \<Rightarrow> npfloat \<Rightarrow> real \<Rightarrow> npfloat" where
  "dphi_y_nf theta_deg phi_deg dy =
     nf2 (*) (nf2 (*) (Fin (- wavenumber * dy)) (nf1 sin (nf1 deg2rad theta_deg)))
       (nf1 sin (nf1 deg2rad phi_deg))"

definition base_phases_nf :: "npfloat \<Rightarrow> npfloat \<Rightarrow> real \<Rightarrow> real \<Rightarrow> npfloat list" where
  "base_phases_nf theta_deg phi_deg dx dy =
     concat (map (\<lambda>m. map (\<lambda>n.
         nf1 (\<lambda>p. py_mod (rad2deg p) 360)
           (nf2 (+) (nf2 (*) (Fin m) (dphi_x_nf theta_deg phi_deg dx))
                    (nf2 (*) (Fin n) (dphi_y_nf theta_deg phi_deg dy))))
       [-1, 0, 1]) [-1, 0, 1])"

definition restore_grid_nf :: "npfloat list \<Rightarrow> npfloat list list" where
  "restore_grid_nf rotated =
     fold (\<lambda>(val, (j, i)) phases. phases[j := (phases ! j)[i := val]])
       (zip rotated idx_map) (replicate 3 (replicate 3 (Fin 0)))"

record info_nf =
  rotation_deg_nf :: npfloat
  span_deg_nf :: npfloat

definition steering_phases_nf ::
  "npfloat \<Rightarrow> npfloat \<Rightarrow> real option \<Rightarrow> real option \<Rightarrow> real \<Rightarrow>
     error + (npfloat list list \<times> info_nf)" where
  "steering_phases_nf theta_deg phi_deg dx dy max_phase =
     (let dx' = (case dx of None \<Rightarrow> 3 / 100 | Some d \<Rightarrow> d);
          dy' = (case dy of None \<Rightarrow> 3 / 100 | Some d \<Rightarrow> d);
          base = base_phases_nf theta_deg phi_deg dx' dy'
      in case rotate_into_window_nf base max_phase default_atol of
           Inl e \<Rightarrow> Inl e
         | Inr (rotated, c_deg, span_before) \<Rightarrow>
             Inr (restore_grid_nf rotated,
                  \<lparr>rotation_deg_nf = c_deg, span_deg_nf = span_before\<rparr>))"

section \<open>Order of the catalog\<close>

text \<open>
  The order the catalog is meant to have: ascending elevation, then ascending azimuth.
\<close>

definition angles_of :: "entry \<Rightarrow> real \<times> real" where
  "angles_of e = (fst e, fst (snd e))"

definition angles_before :: "entry \<Rightarrow> entry \<Rightarrow> bool" where
  "angles_before x y =
     (fst x < fst y \<or> (fst x = fst y \<and> fst (snd x) < fst (snd y)))"

text \<open>Entries with the same angles carry the same label.\<close>

definition labels_agree :: "entry set \<Rightarrow> bool" where
  "labels_agree S =
     (\<forall>x\<in>S. \<forall>y\<in>S. angles_of x = angles_of y \<longrightarrow> fst (snd (snd x)) = fst (snd (snd y)))"

section \<open>Properties\<close>

lemma np_diff_length: "length (np_diff xs) = length xs - 1"
  by (induction xs rule: np_diff.induct) auto

subsection \<open>The widest gap\<close>

lemma np_diff_nth:
  "Suc i < length xs \<Longrightarrow> np_diff xs ! i = xs ! Suc i - xs ! i"
proof (induction xs arbitrary: i rule: np_diff.induct)
  case (1 x y zs)
  then show ?case by (cases i) auto
qed auto

lemma np_diff_circular:
  assumes "a \<noteq> []"
  shows "np_diff (a @ [a ! 0 + 360]) = circular_gaps a"
proof (rule nth_equalityI)
  show "length (np_diff (a @ [a ! 0 + 360])) = length (circular_gaps a)"
    by (simp add: np_diff_length circular_gaps_def)
next
  fix i assume "i < length (np_diff (a @ [a ! 0 + 360]))"
  then have i: "i < length a" by (simp add: np_diff_length)
  then have "np_diff (a @ [a ! 0 + 360]) ! i = (a @ [a ! 0 + 360]) ! Suc i - (a @ [a ! 0 + 360]) ! i"
    by (simp add: np_diff_nth)
  also have "\<dots> = circular_gaps a ! i"
    using i by (auto simp: circular_gaps_def nth_append)
  finally show "np_diff (a @ [a ! 0 + 360]) ! i = circular_gaps a ! i" .
qed

lemma argmax_from_spec:
  "(argmax_from best bv i xs = best \<and> (\<forall>x\<in>set xs. x \<le> bv)) \<or>
   (i \<le> argmax_from best bv i xs \<and> argmax_from best bv i xs - i < length xs \<and>
    bv < xs ! (argmax_from best bv i xs - i) \<and>
    (\<forall>x\<in>set xs. x \<le> xs ! (argmax_from best bv i xs - i)) \<and>
    (\<forall>j<argmax_from best bv i xs - i. xs ! j < xs ! (argmax_from best bv i xs - i)))"
proof (induction xs arbitrary: best bv i)
  case Nil
  then show ?case by simp
next
  case (Cons x xs)
  show ?case
  proof (cases "bv < x")
    case True
    define r where "r = argmax_from i x (Suc i) xs"
    have eq: "argmax_from best bv i (x # xs) = r" using True by (simp add: r_def)
    from Cons.IH[of i x "Suc i"] consider
      (a) "r = i" "\<forall>y\<in>set xs. y \<le> x"
      | (b) "Suc i \<le> r" "r - Suc i < length xs" "x < xs ! (r - Suc i)"
            "\<forall>y\<in>set xs. y \<le> xs ! (r - Suc i)" "\<forall>j<r - Suc i. xs ! j < xs ! (r - Suc i)"
      unfolding r_def by blast
    then show ?thesis
    proof cases
      case a
      then show ?thesis unfolding eq using True by auto
    next
      case b
      then have idx: "r - i = Suc (r - Suc i)" by arith
      have lt: "\<forall>j<r - i. (x # xs) ! j < (x # xs) ! (r - i)"
      proof (intro allI impI)
        fix j assume "j < r - i"
        then show "(x # xs) ! j < (x # xs) ! (r - i)"
          using b idx by (cases j) auto
      qed
      show ?thesis unfolding eq using True b idx lt
        by (intro disjI2) (auto simp: less_imp_le)
    qed
  next
    case False
    define r where "r = argmax_from best bv (Suc i) xs"
    have eq: "argmax_from best bv i (x # xs) = r" using False by (simp add: r_def)
    from Cons.IH[of best bv "Suc i"] consider
      (a) "r = best" "\<forall>y\<in>set xs. y \<le> bv"
      | (b) "Suc i \<le> r" "r - Suc i < length xs" "bv < xs ! (r - Suc i)"
            "\<forall>y\<in>set xs. y \<le> xs ! (r - Suc i)" "\<forall>j<r - Suc i. xs ! j < xs ! (r - Suc i)"
      unfolding r_def by blast
    then show ?thesis
    proof cases
      case a
      then show ?thesis unfolding eq using False by auto
    next
      case b
      then have idx: "r - i = Suc (r - Suc i)" by arith
      have lt: "\<forall>j<r - i. (x # xs) ! j < (x # xs) ! (r - i)"
      proof (intro allI impI)
        fix j assume "j < r - i"
        then show "(x # xs) ! j < (x # xs) ! (r - i)"
          using b idx False by (cases j) auto
      qed
      have "x \<le> xs ! (r - Suc i)" using False b by auto
      then show ?thesis unfolding eq using b idx lt
        by (intro disjI2) auto
    qed
  qed
qed

lemma np_argmax_first_max:
  assumes "xs \<noteq> []"
  shows "np_argmax xs < length xs"
    and "\<forall>x\<in>set xs. x \<le> xs ! np_argmax xs"
    and "\<forall>j<np_argmax xs. xs ! j < xs ! np_argmax xs"
proof -
  obtain x rest where xs: "xs = x # rest" using assms by (cases xs) auto
  define r where "r = argmax_from 0 x 1 rest"
  have k: "np_argmax xs = r" by (simp add: np_argmax_def xs r_def)
  from argmax_from_spec[of 0 x 1 rest] consider
    (a) "r = 0" "\<forall>y\<in>set rest. y \<le> x"
    | (b) "1 \<le> r" "r - 1 < length rest" "x < rest ! (r - 1)"
          "\<forall>y\<in>set rest. y \<le> rest ! (r - 1)" "\<forall>j<r - 1. rest ! j < rest ! (r - 1)"
    unfolding r_def by fastforce
  then have "r < length xs \<and> (\<forall>x\<in>set xs. x \<le> xs ! r) \<and> (\<forall>j<r. xs ! j < xs ! r)"
  proof cases
    case a
    then show ?thesis by (auto simp: xs)
  next
    case b
    then obtain r' where r': "r = Suc r'" by (cases r) auto
    have "\<forall>j<r. xs ! j < xs ! r"
    proof (intro allI impI)
      fix j assume "j < r"
      then show "xs ! j < xs ! r" using b r' by (cases j) (auto simp: xs)
    qed
    then show ?thesis using b r' by (auto simp: xs less_imp_le)
  qed
  then show "np_argmax xs < length xs"
    and "\<forall>x\<in>set xs. x \<le> xs ! np_argmax xs"
    and "\<forall>j<np_argmax xs. xs ! j < xs ! np_argmax xs"
    unfolding k by auto
qed

lemma np_argmax_Max:
  assumes "xs \<noteq> []"
  shows "xs ! np_argmax xs = Max (set xs)"
proof -
  have "Max (set xs) = xs ! np_argmax xs"
    using np_argmax_first_max[OF assms] by (intro Max_eqI) auto
  then show ?thesis by simp
qed

lemma circular_gaps_length: "length (circular_gaps a) = length a"
  by (simp add: circular_gaps_def)

lemma sorted_angles_length: "length (sorted_angles angles) = length angles"
  by (simp add: sorted_angles_def)

lemma minimal_span_argmax:
  assumes "angles \<noteq> []"
  shows "minimal_span angles =
    360 - circular_gaps (sorted_angles angles) ! widest_gap_index angles"
proof -
  have "circular_gaps (sorted_angles angles) \<noteq> []"
    using assms by (simp add: circular_gaps_def sorted_angles_def)
  then show ?thesis
    by (simp add: minimal_span_def widest_gap_index_def np_argmax_Max sorted_angles_def)
qed

lemma rotate_into_window_unfold:
  assumes "angles \<noteq> []"
  shows "rotate_into_window angles W atol =
    (if minimal_span angles \<le> W + atol then
       Inr (map (\<lambda>x. np_clip (py_mod (x + - (sorted_angles angles !
                  ((widest_gap_index angles + 1) mod length angles))) 360) 0 W) angles,
            - (sorted_angles angles ! ((widest_gap_index angles + 1) mod length angles)),
            minimal_span angles)
     else Inl (WindowError (round2 (minimal_span angles)) W))"
proof -
  have ne: "sorted_angles angles \<noteq> []"
    using assms sorted_angles_length[of angles] by (cases "sorted_angles angles") auto
  show ?thesis
    using assms unfolding rotate_into_window_def Let_def
    by (simp add: np_diff_circular[OF ne, unfolded sorted_angles_def]
        minimal_span_argmax[OF assms, unfolded widest_gap_index_def sorted_angles_def]
        widest_gap_index_def sorted_angles_def o_def)
qed

lemma rotate_into_window_empty: "rotate_into_window [] W atol = Inl IndexError"
  by (simp add: rotate_into_window_def)

text \<open>
  Claim C1. For a nonempty list of angles, let \<open>a\<close> be the angles reduced mod 360 and
  sorted, and \<open>gaps\<close> the circular gaps between consecutive entries of \<open>a\<close>, the last
  gap wrapping from the last entry to the first plus 360. The code picks the first index
  \<open>k\<close> at which \<open>gaps\<close> is maximal (all earlier gaps are strictly smaller), its span is
  360 minus that largest gap, and on success it returns the rotation \<open>c = - start\<close> with
  \<open>start = a[(k + 1) mod N]\<close>, the angle right after the widest gap; on failure the
  message reports the same span.
\<close>

theorem rotate_into_window_widest_gap:
  assumes "angles_deg \<noteq> []"
  shows "let a = sort (map (\<lambda>x. py_mod x 360) angles_deg); gaps = circular_gaps a
         in \<exists>k. k < length gaps \<and> gaps ! k = Max (set gaps) \<and> (\<forall>j<k. gaps ! j < gaps ! k) \<and>
              (if 360 - Max (set gaps) \<le> window_width + atol
               then \<exists>rotated. rotate_into_window angles_deg window_width atol =
                      Inr (rotated, - (a ! ((k + 1) mod length a)), 360 - Max (set gaps))
               else rotate_into_window angles_deg window_width atol =
                      Inl (WindowError (round2 (360 - Max (set gaps))) window_width))"
proof -
  define a where "a = sort (map (\<lambda>x. py_mod x 360) angles_deg)"
  define k where "k = np_argmax (circular_gaps a)"
  have a: "a = sorted_angles angles_deg" by (simp add: a_def sorted_angles_def)
  have k: "k = widest_gap_index angles_deg" by (simp add: k_def a widest_gap_index_def)
  have len: "length a = length angles_deg" by (simp add: a_def)
  have ne: "circular_gaps a \<noteq> []"
    using assms by (simp add: circular_gaps_def a_def)
  have span: "minimal_span angles_deg = 360 - Max (set (circular_gaps a))"
    by (simp add: minimal_span_def a_def)
  have "k < length (circular_gaps a)"
    and "circular_gaps a ! k = Max (set (circular_gaps a))"
    and "\<forall>j<k. circular_gaps a ! j < circular_gaps a ! k"
    using np_argmax_first_max[OF ne] np_argmax_Max[OF ne] by (simp_all add: k_def)
  moreover have "if 360 - Max (set (circular_gaps a)) \<le> window_width + atol
     then \<exists>rotated. rotate_into_window angles_deg window_width atol =
            Inr (rotated, - (a ! ((k + 1) mod length a)), 360 - Max (set (circular_gaps a)))
     else rotate_into_window angles_deg window_width atol =
            Inl (WindowError (round2 (360 - Max (set (circular_gaps a)))) window_width)"
    using rotate_into_window_unfold[OF assms, of window_width atol]
    by (simp add: span a k len sorted_angles_length)
  ultimately show ?thesis
    unfolding a_def Let_def by blast
qed

theorem rotate_into_window_widest_gap_witness:
  "[350, 10, 20] \<noteq> ([] :: real list) \<and>
   rotate_into_window [350, 10, 20] 290 default_atol = Inr ([0, 20, 30], - 350, 30) \<and>
   sort (map (\<lambda>x. py_mod x 360) [350, 10, 20]) = [10, 20, 350] \<and>
   circular_gaps [10, 20, 350] = [10, 330, 20] \<and>
   (let a = sort (map (\<lambda>x. py_mod x 360) [350, 10, 20]); gaps = circular_gaps a
    in \<exists>k. k < length gaps \<and> gaps ! k = Max (set gaps) \<and> (\<forall>j<k. gaps ! j < gaps ! k) \<and>
         (if 360 - Max (set gaps) \<le> 290 + default_atol
          then \<exists>rotated. rotate_into_window [350, 10, 20] 290 default_atol =
                 Inr (rotated, - (a ! ((k + 1) mod length a)), 360 - Max (set gaps))
          else rotate_into_window [350, 10, 20] 290 default_atol =
                 Inl (WindowError (round2 (360 - Max (set gaps))) 290)))"
proof -
  have ne: "[350, 10, 20] \<noteq> ([] :: real list)" by simp
  have run: "rotate_into_window [350, 10, 20] 290 default_atol = Inr ([0, 20, 30], - 350, 30)"
    by (simp add: rotate_into_window_def py_mod_def np_argmax_def np_clip_def default_atol_def)
  have srt: "sort (map (\<lambda>x. py_mod x 360) [350, 10, 20]) = [10, 20, 350]"
    by (simp add: py_mod_def)
  have gaps: "circular_gaps [10, 20, 350] = [10, 330, 20]"
    by (simp add: circular_gaps_def upt_rec)
  from rotate_into_window_widest_gap[OF ne, of 290 default_atol]
  show ?thesis using ne run srt gaps by blast
qed

text \<open>
  Claim C2. \<open>_rotate_into_window\<close> raises the infeasibility error exactly when the input is
  nonempty and the minimal span exceeds \<open>window_width + atol\<close>; the error then shows the
  span (as \<open>{span:.2f}\<close> renders it) and the window width. With the default tolerance, a
  nonempty input whose minimal span equals the window width is feasible and the reported
  span is that width.
\<close>

theorem rotate_into_window_infeasible_iff:
  "(rotate_into_window angles_deg window_width atol = Inl (WindowError s w) \<longleftrightarrow>
      angles_deg \<noteq> [] \<and> window_width + atol < minimal_span angles_deg \<and>
      s = round2 (minimal_span angles_deg) \<and> w = window_width) \<and>
   (angles_deg \<noteq> [] \<and> minimal_span angles_deg = window_width \<longrightarrow>
      (\<exists>rotated c. rotate_into_window angles_deg window_width default_atol =
         Inr (rotated, c, window_width)))"
proof (cases "angles_deg = []")
  case True
  then show ?thesis by (simp add: rotate_into_window_empty)
next
  case False
  have "0 \<le> default_atol" by (simp add: default_atol_def)
  then show ?thesis
    using False
    by (auto simp: rotate_into_window_unfold[OF False])
qed

theorem rotate_into_window_infeasible_iff_witness:
  "minimal_span [0, 90, 180] = 180 \<and>
   rotate_into_window [0, 90, 180] 100 default_atol = Inl (WindowError 180 100) \<and>
   minimal_span [0, 100] = 100 \<and>
   (\<exists>rotated c. rotate_into_window [0, 100] 100 default_atol = Inr (rotated, c, 100))"
proof -
  have s1: "minimal_span [0, 90, 180] = 180"
    by (simp add: minimal_span_def circular_gaps_def py_mod_def upt_rec)
  have s2: "minimal_span [0, 100] = 100"
    by (simp add: minimal_span_def circular_gaps_def py_mod_def upt_rec)
  have r: "round2 180 = 180"
    by (simp add: round2_def round_half_even_def)
  have "(100::real) + default_atol < 180" by (simp add: default_atol_def)
  then have "rotate_into_window [0, 90, 180] 100 default_atol = Inl (WindowError 180 100)"
    using rotate_into_window_infeasible_iff[of "[0, 90, 180]" 100 default_atol 180 100] s1 r
    by simp
  moreover have "\<exists>rotated c. rotate_into_window [0, 100] 100 default_atol = Inr (rotated, c, 100)"
    using rotate_into_window_infeasible_iff[of "[0, 100]" 100 default_atol 0 0] s2
    by simp
  ultimately show ?thesis using s1 s2 by simp
qed

subsection \<open>The rotated phases\<close>

lemma py_mod_unique:
  assumes "0 \<le> x - 360 * of_int n" and "x - 360 * of_int n < 360"
  shows "py_mod x 360 = x - 360 * of_int n"
proof -
  have "\<lfloor>x / 360\<rfloor> = n"
    using assms by (intro floor_unique) (simp_all add: field_simps)
  then show ?thesis by (simp add: py_mod_def)
qed

lemma py_mod_range: "0 \<le> py_mod x 360" "py_mod x 360 < 360"
proof -
  have "py_mod x 360 = 360 * frac (x / 360)"
    by (simp add: py_mod_def frac_def algebra_simps)
  then show "0 \<le> py_mod x 360" "py_mod x 360 < 360"
    using frac_ge_0[of "x / 360"] frac_lt_1[of "x / 360"] by simp_all
qed

lemma py_mod_id: "0 \<le> x \<Longrightarrow> x < 360 \<Longrightarrow> py_mod x 360 = x"
  using py_mod_unique[of x 0] by simp

lemma py_mod_add_left: "py_mod (py_mod x 360 + c) 360 = py_mod (x + c) 360"
proof -
  define n where "n = \<lfloor>x / 360\<rfloor>"
  define m where "m = \<lfloor>(x + c) / 360\<rfloor>"
  define y where "y = x - 360 * of_int n + c"
  have x: "py_mod x 360 + c = y" by (simp add: py_mod_def n_def y_def)
  have r: "py_mod (x + c) 360 = x + c - 360 * of_int m" by (simp add: py_mod_def m_def)
  have yr: "y - 360 * of_int (m - n) = x + c - 360 * of_int m"
    by (simp add: y_def algebra_simps)
  have "0 \<le> py_mod (x + c) 360" "py_mod (x + c) 360 < 360" by (rule py_mod_range)+
  then have "0 \<le> y - 360 * of_int (m - n)" "y - 360 * of_int (m - n) < 360"
    unfolding r yr by simp_all
  then have "py_mod y 360 = y - 360 * of_int (m - n)"
    by (rule py_mod_unique)
  then show ?thesis unfolding x r yr .
qed


lemma circular_gaps_nth:
  "k < length a \<Longrightarrow>
   circular_gaps a ! k = (if Suc k < length a then a ! Suc k else a ! 0 + 360) - a ! k"
  by (simp add: circular_gaps_def)

lemma rotation_bounds:
  assumes srt: "sorted a" and rng: "\<forall>y\<in>set a. 0 \<le> y \<and> y < 360" and k: "k < length a"
    and gap: "0 < circular_gaps a ! k"
  defines "start \<equiv> a ! ((k + 1) mod length a)"
    and "width \<equiv> 360 - circular_gaps a ! k"
  shows "\<forall>y\<in>set a. 0 \<le> py_mod (y + - start) 360 \<and> py_mod (y + - start) 360 \<le> width"
    and "py_mod (a ! k + - start) 360 = width"
    and "start \<in> set a"
proof -
  have ak: "0 \<le> a ! k" "a ! k < 360" using rng k by auto
  have "(k + 1) mod length a < length a" using k by (intro mod_less_divisor) auto
  then show in_a: "start \<in> set a" unfolding start_def by (rule nth_mem)
  then have st: "0 \<le> start" "start < 360" using rng by auto
  show "\<forall>y\<in>set a. 0 \<le> py_mod (y + - start) 360 \<and> py_mod (y + - start) 360 \<le> width"
  proof
    fix y assume "y \<in> set a"
    then obtain j where j: "j < length a" "y = a ! j" by (auto simp: in_set_conv_nth)
    have y: "0 \<le> y" "y < 360" using rng \<open>y \<in> set a\<close> by auto
    show "0 \<le> py_mod (y + - start) 360 \<and> py_mod (y + - start) 360 \<le> width"
    proof (cases "Suc k < length a")
      case True
      then have start: "start = a ! Suc k" by (simp add: start_def)
      have w: "width = 360 - a ! Suc k + a ! k"
        using True k by (simp add: width_def circular_gaps_nth)
      have lt: "a ! k < a ! Suc k"
        using gap True k by (simp add: circular_gaps_nth)
      show ?thesis
      proof (cases "j \<le> k")
        case le: True
        then have "y \<le> a ! k" using srt k j by (simp add: sorted_nth_mono)
        moreover have "py_mod (y + - start) 360 = y + - start - 360 * of_int (- 1)"
          using y st lt \<open>y \<le> a ! k\<close> start by (intro py_mod_unique) simp_all
        ultimately show ?thesis using w start lt y st by simp
      next
        case False
        then have "Suc k \<le> j" by simp
        then have "start \<le> y" using srt j start by (simp add: sorted_nth_mono)
        moreover have "py_mod (y + - start) 360 = y + - start"
          using y st \<open>start \<le> y\<close> by (intro py_mod_id) simp_all
        ultimately show ?thesis using w start y ak by simp
      qed
    next
      case False
      then have kl: "Suc k = length a" using k by simp
      then have start: "start = a ! 0" by (simp add: start_def)
      have w: "width = a ! k - a ! 0"
        using False k by (simp add: width_def circular_gaps_nth)
      have "start \<le> y" using srt j start by (simp add: sorted_nth_mono)
      moreover have "y \<le> a ! k" using srt j kl by (simp add: sorted_nth_mono)
      moreover have "py_mod (y + - start) 360 = y + - start"
        using y st \<open>start \<le> y\<close> by (intro py_mod_id) simp_all
      ultimately show ?thesis using w start by simp
    qed
  qed
  show "py_mod (a ! k + - start) 360 = width"
  proof (cases "Suc k < length a")
    case True
    then have start: "start = a ! Suc k" by (simp add: start_def)
    have w: "width = 360 - a ! Suc k + a ! k"
      using True k by (simp add: width_def circular_gaps_nth)
    have lt: "a ! k < a ! Suc k"
      using gap True k by (simp add: circular_gaps_nth)
    have "py_mod (a ! k + - start) 360 = a ! k + - start - 360 * of_int (- 1)"
      using ak st lt start by (intro py_mod_unique) simp_all
    then show ?thesis using w start by simp
  next
    case False
    then have kl: "Suc k = length a" using k by simp
    then have start: "start = a ! 0" by (simp add: start_def)
    have w: "width = a ! k - a ! 0"
      using False k by (simp add: width_def circular_gaps_nth)
    have "start \<le> a ! k" using srt k start by (simp add: sorted_nth_mono)
    then have "py_mod (a ! k + - start) 360 = a ! k + - start"
      using ak st by (intro py_mod_id) simp_all
    then show ?thesis using w start by simp
  qed
qed


lemma sorted_angles_props:
  "sorted (sorted_angles angles)"
  "set (sorted_angles angles) = (\<lambda>x. py_mod x 360) ` set angles"
  "\<forall>y\<in>set (sorted_angles angles). 0 \<le> y \<and> y < 360"
  by (auto simp: sorted_angles_def py_mod_range)

lemma widest_gap_positive:
  assumes "angles \<noteq> []"
  shows "widest_gap_index angles < length (sorted_angles angles)"
    and "0 < circular_gaps (sorted_angles angles) ! widest_gap_index angles"
proof -
  define a where "a = sorted_angles angles"
  have len: "length a = length angles" by (simp add: a_def sorted_angles_length)
  then have ne: "circular_gaps a \<noteq> []" using assms by (simp add: circular_gaps_def)
  have n: "length a - 1 < length a" using len assms by (cases a) auto
  have last_in: "a ! (length a - 1) \<in> set a" and first_in: "a ! 0 \<in> set a"
    using n by (auto intro: nth_mem)
  have "a ! (length a - 1) < 360" "0 \<le> a ! 0"
    using sorted_angles_props(3)[of angles] last_in first_in unfolding a_def by auto
  moreover have "\<not> Suc (length a - 1) < length a" by simp
  ultimately have wrap: "0 < circular_gaps a ! (length a - 1)"
    using n by (simp add: circular_gaps_nth)
  have "circular_gaps a ! (length a - 1) \<in> set (circular_gaps a)"
    using n by (intro nth_mem) (simp add: circular_gaps_length)
  then have "circular_gaps a ! (length a - 1) \<le> circular_gaps a ! np_argmax (circular_gaps a)"
    using np_argmax_first_max(2)[OF ne] by blast
  then show "0 < circular_gaps (sorted_angles angles) ! widest_gap_index angles"
    using wrap by (simp add: widest_gap_index_def a_def)
  show "widest_gap_index angles < length (sorted_angles angles)"
    using np_argmax_first_max(1)[OF ne]
    by (simp add: widest_gap_index_def a_def circular_gaps_length)
qed

lemma rotation_start_range:
  assumes "angles \<noteq> []"
  shows "0 \<le> rotation_start angles" "rotation_start angles < 360"
proof -
  have "rotation_start angles \<in> set (sorted_angles angles)"
    using rotation_bounds(3)[OF sorted_angles_props(1) sorted_angles_props(3)
        widest_gap_positive[OF assms]]
    by (simp add: rotation_start_def sorted_angles_length)
  then show "0 \<le> rotation_start angles" "rotation_start angles < 360"
    using sorted_angles_props(3)[of angles] by auto
qed

lemma rotated_before_clip:
  assumes "angles \<noteq> []"
  shows "\<forall>x\<in>set angles. 0 \<le> py_mod (x + - rotation_start angles) 360 \<and>
           py_mod (x + - rotation_start angles) 360 \<le> minimal_span angles"
    and "\<exists>x\<in>set angles. py_mod (x + - rotation_start angles) 360 = 0"
    and "\<exists>x\<in>set angles. py_mod (x + - rotation_start angles) 360 = minimal_span angles"
proof -
  define a where "a = sorted_angles angles"
  define k where "k = widest_gap_index angles"
  note rb = rotation_bounds[OF sorted_angles_props(1) sorted_angles_props(3)
      widest_gap_positive[OF assms], folded a_def k_def]
  have st: "a ! ((k + 1) mod length a) = rotation_start angles"
    by (simp add: rotation_start_def a_def k_def sorted_angles_length)
  have sp: "360 - circular_gaps a ! k = minimal_span angles"
    by (simp add: minimal_span_argmax[OF assms] a_def k_def)
  have set_a: "set a = (\<lambda>x. py_mod x 360) ` set angles"
    by (simp add: a_def sorted_angles_props(2))
  have k: "k < length a"
    using widest_gap_positive(1)[OF assms] by (simp add: a_def k_def)
  show "\<forall>x\<in>set angles. 0 \<le> py_mod (x + - rotation_start angles) 360 \<and>
           py_mod (x + - rotation_start angles) 360 \<le> minimal_span angles"
  proof
    fix x assume "x \<in> set angles"
    then have "py_mod x 360 \<in> set a" by (simp add: set_a)
    then have "0 \<le> py_mod (py_mod x 360 + - rotation_start angles) 360 \<and>
        py_mod (py_mod x 360 + - rotation_start angles) 360 \<le> minimal_span angles"
      using rb(1) unfolding st sp by blast
    then show "0 \<le> py_mod (x + - rotation_start angles) 360 \<and>
           py_mod (x + - rotation_start angles) 360 \<le> minimal_span angles"
      by (simp only: py_mod_add_left)
  qed
  have "rotation_start angles \<in> set a" using rb(3) unfolding st .
  then obtain x where x: "x \<in> set angles" "py_mod x 360 = rotation_start angles"
    unfolding set_a by auto
  have "py_mod (py_mod x 360 + - rotation_start angles) 360 = 0"
    unfolding x(2) by (simp add: py_mod_id)
  then have "py_mod (x + - rotation_start angles) 360 = 0"
    by (simp only: py_mod_add_left)
  then show "\<exists>x\<in>set angles. py_mod (x + - rotation_start angles) 360 = 0"
    using x(1) by blast
  have "a ! k \<in> set a" using k by (rule nth_mem)
  then obtain z where z: "z \<in> set angles" "py_mod z 360 = a ! k"
    unfolding set_a by auto
  have "py_mod (py_mod z 360 + - rotation_start angles) 360 = minimal_span angles"
    unfolding z(2) using rb(2) unfolding st sp .
  then have "py_mod (z + - rotation_start angles) 360 = minimal_span angles"
    by (simp only: py_mod_add_left)
  then show "\<exists>x\<in>set angles. py_mod (x + - rotation_start angles) 360 = minimal_span angles"
    using z(1) by blast
qed


lemma rotate_into_window_success:
  assumes "rotate_into_window angles W atol = Inr (rotated, c, reported)"
  shows "angles \<noteq> []"
    and "minimal_span angles \<le> W + atol"
    and "rotated = map (\<lambda>x. np_clip (py_mod (x + - rotation_start angles) 360) 0 W) angles"
    and "c = - rotation_start angles"
    and "reported = minimal_span angles"
proof -
  show ne: "angles \<noteq> []"
    using assms by (auto simp: rotate_into_window_empty)
  have "minimal_span angles \<le> W + atol \<and>
    rotated = map (\<lambda>x. np_clip (py_mod (x + - rotation_start angles) 360) 0 W) angles \<and>
    c = - rotation_start angles \<and> reported = minimal_span angles"
    using assms unfolding rotate_into_window_unfold[OF ne] rotation_start_def
    by (auto split: if_splits)
  then show "minimal_span angles \<le> W + atol"
    and "rotated = map (\<lambda>x. np_clip (py_mod (x + - rotation_start angles) 360) 0 W) angles"
    and "c = - rotation_start angles"
    and "reported = minimal_span angles"
    by simp_all
qed

lemma clipped_extremes:
  assumes ne: "angles \<noteq> []" and w: "0 \<le> W"
  defines "rotated \<equiv> map (\<lambda>x. np_clip (py_mod (x + - rotation_start angles) 360) 0 W) angles"
  shows "\<forall>r\<in>set rotated. 0 \<le> r \<and> r \<le> W"
    and "Min (set rotated) = 0"
    and "Max (set rotated) = min (minimal_span angles) W"
proof -
  note pre = rotated_before_clip[OF ne]
  have clip: "np_clip (py_mod (x + - rotation_start angles) 360) 0 W =
      min (py_mod (x + - rotation_start angles) 360) W" if "x \<in> set angles" for x
    using pre(1) that by (auto simp: np_clip_def max_def)
  have set_r: "set rotated = (\<lambda>x. min (py_mod (x + - rotation_start angles) 360) W) ` set angles"
    unfolding rotated_def using clip by (auto simp: image_iff)
  show rng: "\<forall>r\<in>set rotated. 0 \<le> r \<and> r \<le> W"
    unfolding set_r using pre(1) w by auto
  have fin: "finite (set rotated)" by simp
  from pre(2) obtain x where "x \<in> set angles" "py_mod (x + - rotation_start angles) 360 = 0"
    by blast
  then have "0 \<in> set rotated" unfolding set_r using w by (force simp: image_iff)
  then show "Min (set rotated) = 0"
    using rng by (intro Min_eqI fin) auto
  from pre(3) obtain z where "z \<in> set angles"
      "py_mod (z + - rotation_start angles) 360 = minimal_span angles"
    by blast
  then have "min (minimal_span angles) W \<in> set rotated"
    unfolding set_r by (force simp: image_iff)
  moreover have "\<forall>r\<in>set rotated. r \<le> min (minimal_span angles) W"
    unfolding set_r using pre(1) by auto
  ultimately show "Max (set rotated) = min (minimal_span angles) W"
    by (intro Max_eqI fin) auto
qed

lemma rotate_into_window_extent:
  assumes "rotate_into_window angles_deg window_width atol = Inr (rotated, c, reported_span)"
    and "0 \<le> window_width"
  shows "Min (set rotated) = 0" and "Max (set rotated) = min reported_span window_width"
proof -
  note ok = rotate_into_window_success[OF assms(1)]
  note ext = clipped_extremes[OF ok(1) assms(2), folded ok(3)]
  show "Min (set rotated) = 0" using ext(2) .
  show "Max (set rotated) = min reported_span window_width" using ext(3) by (simp add: ok(5))
qed

text \<open>
  Claim C3. The window \<open>[0, window_width]\<close> is an interval, so its width is not negative
  (the caller passes \<open>max_phase\<close>, 290 by default). Whenever \<open>_rotate_into_window\<close>
  succeeds on such a window, every returned phase lies in \<open>[0, window_width]\<close>, and the
  maximum of the returned phases minus their minimum equals the reported span within the
  tolerance \<open>atol\<close> of the call (\<open>1e-9\<close> by default; exactly when \<open>atol\<close> is not positive).
\<close>

theorem rotate_into_window_within_window:
  assumes "rotate_into_window angles_deg window_width atol = Inr (rotated, c, reported_span)"
    and "0 \<le> window_width"
  shows "(\<forall>r\<in>set rotated. 0 \<le> r \<and> r \<le> window_width) \<and>
         \<bar>Max (set rotated) - Min (set rotated) - reported_span\<bar> \<le> max atol 0"
proof -
  note ok = rotate_into_window_success[OF assms(1)]
  note ext = clipped_extremes[OF ok(1) assms(2), folded ok(3)]
  have "\<bar>min reported_span window_width - reported_span\<bar> \<le> max atol 0"
    using ok(2) unfolding ok(5) by (auto simp: min_def max_def)
  then show ?thesis using ext by (simp add: ok(5))
qed

theorem rotate_into_window_within_window_witness:
  "rotate_into_window [350, 10, 20] (30 - 1 / 10 ^ 10) default_atol =
     Inr ([0, 20, 30 - 1 / 10 ^ 10], - 350, 30) \<and>
   (0::real) \<le> 30 - 1 / 10 ^ 10 \<and>
   list_all (\<lambda>r. 0 \<le> r \<and> r \<le> 30 - 1 / 10 ^ 10) [0, 20, 30 - 1 / 10 ^ 10 :: real] \<and>
   \<bar>Max (set [0, 20, 30 - 1 / 10 ^ 10 :: real]) - Min (set [0, 20, 30 - 1 / 10 ^ 10]) - 30\<bar>
     \<le> max default_atol 0"
proof -
  have run: "rotate_into_window [350, 10, 20] (30 - 1 / 10 ^ 10) default_atol =
     Inr ([0, 20, 30 - 1 / 10 ^ 10], - 350, 30)"
    by (simp add: rotate_into_window_def py_mod_def np_argmax_def np_clip_def default_atol_def)
  have w: "(0::real) \<le> 30 - 1 / 10 ^ 10" by simp
  from rotate_into_window_within_window[OF run w]
  have "(\<forall>r\<in>set [0, 20, 30 - 1 / 10 ^ 10 :: real]. 0 \<le> r \<and> r \<le> 30 - 1 / 10 ^ 10) \<and>
    \<bar>Max (set [0, 20, 30 - 1 / 10 ^ 10 :: real]) - Min (set [0, 20, 30 - 1 / 10 ^ 10]) - 30\<bar>
      \<le> max default_atol 0" .
  then show ?thesis using run w unfolding list_all_iff by blast
qed

text \<open>
  Claim C10. Whenever \<open>_rotate_into_window\<close> succeeds on angles already reduced into
  \<open>[0, 360)\<close> (the input is then nonempty), for a window \<open>[0, window_width]\<close> as above,
  the minimum of the returned phases is exactly 0 and the rotation constant \<open>c\<close> lies in
  \<open>(-360, 0]\<close>.
\<close>

theorem rotate_into_window_min_zero:
  assumes "rotate_into_window angles_deg window_width atol = Inr (rotated, c, reported_span)"
    and "angles_deg \<noteq> []"
    and "\<forall>x\<in>set angles_deg. 0 \<le> x \<and> x < 360"
    and "0 \<le> window_width"
  shows "Min (set rotated) = 0 \<and> - 360 < c \<and> c \<le> 0"
proof -
  note ok = rotate_into_window_success[OF assms(1)]
  have "Min (set rotated) = 0"
    using clipped_extremes(2)[OF ok(1) assms(4), folded ok(3)] .
  moreover have "- 360 < c" "c \<le> 0"
    using rotation_start_range[OF ok(1)] unfolding ok(4) by simp_all
  ultimately show ?thesis by simp
qed

theorem rotate_into_window_min_zero_witness:
  "rotate_into_window [350, 10, 20] 290 default_atol = Inr ([0, 20, 30], - 350, 30) \<and>
   [350, 10, 20] \<noteq> ([] :: real list) \<and>
   list_all (\<lambda>x. 0 \<le> x \<and> x < 360) [350, 10, 20 :: real] \<and> (0::real) \<le> 290 \<and>
   Min (set [0, 20, 30 :: real]) = 0 \<and> - 360 < (- 350 :: real) \<and> (- 350 :: real) \<le> 0"
proof -
  have run: "rotate_into_window [350, 10, 20] 290 default_atol = Inr ([0, 20, 30], - 350, 30)"
    by (simp add: rotate_into_window_def py_mod_def np_argmax_def np_clip_def default_atol_def)
  have ne: "[350, 10, 20] \<noteq> ([] :: real list)" by simp
  have rng: "\<forall>x\<in>set [350, 10, 20 :: real]. 0 \<le> x \<and> x < 360" by simp
  have w: "(0::real) \<le> 290" by simp
  from rotate_into_window_min_zero[OF run ne rng w]
  show ?thesis using run by simp
qed

text \<open>
  Outside that domain, for a negative width within the tolerance of 0, the call still
  succeeds on equal angles and \<open>np.clip\<close>, whose lower bound is then above its upper
  bound, returns the negative bound; this is why the two theorems above assume
  \<open>0 \<le> window_width\<close>.
\<close>

lemma rotate_into_window_negative_width:
  "rotate_into_window [45, 45] (- (1 / 10 ^ 10)) default_atol =
     Inr ([- (1 / 10 ^ 10), - (1 / 10 ^ 10)], - 45, 0)"
  by (simp add: rotate_into_window_def py_mod_def np_argmax_def np_clip_def default_atol_def)

subsection \<open>Raw steering phases\<close>

lemma base_phases_list:
  "base_phases t p dx dy =
     [raw_phase t p dx dy (- 1) (- 1), raw_phase t p dx dy (- 1) 0, raw_phase t p dx dy (- 1) 1,
      raw_phase t p dx dy 0 (- 1), raw_phase t p dx dy 0 0, raw_phase t p dx dy 0 1,
      raw_phase t p dx dy 1 (- 1), raw_phase t p dx dy 1 0, raw_phase t p dx dy 1 1]"
  by (simp add: base_phases_def raw_phase_def)

lemma restore_grid_nine:
  "restore_grid [r0, r1, r2, r3, r4, r5, r6, r7, r8] =
     [[r0, r3, r6], [r1, r4, r7], [r2, r5, r8]]"
  by (simp add: restore_grid_def idx_map_def numeral_3_eq_3 numeral_2_eq_2)

lemma below_three: "i < (3::nat) \<Longrightarrow> i = 0 \<or> i = 1 \<or> i = 2"
  by arith

lemma steering_phases_success:
  assumes "steering_phases t p (Some dx) (Some dy) W = Inr (phases, diag)"
  shows "phases = restore_grid (map (\<lambda>x. np_clip (py_mod (x + rotation_deg diag) 360) 0 W)
                     (base_phases t p dx dy))"
proof -
  from assms obtain rotated c sp where
    r: "rotate_into_window (base_phases t p dx dy) W default_atol = Inr (rotated, c, sp)"
    and ph: "phases = restore_grid rotated" and d: "diag = \<lparr>rotation_deg = c, span_deg = sp\<rparr>"
    by (auto simp: steering_phases_def split: sum.splits)
  note ok = rotate_into_window_success[OF r]
  show ?thesis unfolding ph d using ok(3) ok(4) by simp
qed

text \<open>
  Claim C4. For the grid offset \<open>(m, n) = (i - 1, j - 1)\<close> with \<open>i, j < 3\<close>, the raw phase
  \<open>steering_phases\<close> computes (entry \<open>3 i + j\<close> of \<open>base\<close>, destined for cell
  \<open>(j, i)\<close>) is \<open>m * dphi_x + n * dphi_y\<close> converted to degrees and reduced into
  \<open>[0, 360)\<close>, where \<open>dphi_x = - k dx sin(theta) cos(phi)\<close>,
  \<open>dphi_y = - k dy sin(theta) sin(phi)\<close>, \<open>k = 2 pi / lambda\<close> and \<open>lambda = 3e8 / 5e9\<close>. On
  success the returned matrix holds at row \<open>j\<close>, column \<open>i\<close> that raw phase rotated by the
  reported rotation and clipped into the window.
\<close>

theorem steering_phases_raw_phase:
  assumes "i < 3" and "j < 3"
  shows "let m = real i - 1; n = real j - 1;
             k = 2 * pi / (3 * 10 ^ 8 / (5 * 10 ^ 9));
             gx = - k * dx * sin (theta_deg * (pi / 180)) * cos (phi_deg * (pi / 180));
             gy = - k * dy * sin (theta_deg * (pi / 180)) * sin (phi_deg * (pi / 180));
             raw = base_phases theta_deg phi_deg dx dy ! (3 * i + j)
         in raw = py_mod ((m * gx + n * gy) * (180 / pi)) 360 \<and> 0 \<le> raw \<and> raw < 360 \<and>
            idx_map ! (3 * i + j) = (j, i) \<and>
            (\<forall>phases diag.
               steering_phases theta_deg phi_deg (Some dx) (Some dy) max_phase = Inr (phases, diag) \<longrightarrow>
               phases ! j ! i = np_clip (py_mod (raw + rotation_deg diag) 360) 0 max_phase)"
proof -
  have raw: "raw_phase theta_deg phi_deg dx dy m n =
      py_mod ((m * (- (2 * pi / (3 * 10 ^ 8 / (5 * 10 ^ 9))) * dx * sin (theta_deg * (pi / 180)) *
                      cos (phi_deg * (pi / 180))) +
               n * (- (2 * pi / (3 * 10 ^ 8 / (5 * 10 ^ 9))) * dy * sin (theta_deg * (pi / 180)) *
                      sin (phi_deg * (pi / 180)))) * (180 / pi)) 360" for m n
    by (simp add: raw_phase_def rad2deg_def deg2rad_def dphi_x_def dphi_y_def wavenumber_def
        wavelength_def frequency_def)
  have nth: "base_phases theta_deg phi_deg dx dy ! (3 * i + j) =
      raw_phase theta_deg phi_deg dx dy (real i - 1) (real j - 1)"
    using below_three[OF assms(1)] below_three[OF assms(2)]
    by (auto simp: base_phases_list)
  have rng: "0 \<le> raw_phase theta_deg phi_deg dx dy (real i - 1) (real j - 1)"
       "raw_phase theta_deg phi_deg dx dy (real i - 1) (real j - 1) < 360"
    by (simp_all add: raw_phase_def py_mod_range)
  have idx: "idx_map ! (3 * i + j) = (j, i)"
    using below_three[OF assms(1)] below_three[OF assms(2)]
    by (auto simp: idx_map_def)
  have grid: "phases ! j ! i =
      np_clip (py_mod (base_phases theta_deg phi_deg dx dy ! (3 * i + j) + rotation_deg diag) 360)
        0 max_phase"
    if "steering_phases theta_deg phi_deg (Some dx) (Some dy) max_phase = Inr (phases, diag)"
    for phases diag
    unfolding steering_phases_success[OF that]
    using below_three[OF assms(1)] below_three[OF assms(2)]
    by (auto simp: base_phases_list restore_grid_nine)
  show ?thesis
    unfolding Let_def using nth raw rng idx grid by (simp del: mult_minus_left mult_minus_right)
qed


lemma sin_ninety: "sin (90 * (pi / 180)) = 1"
proof -
  have "90 * (pi / 180) = pi / 2" by simp
  then show ?thesis by (simp only: sin_pi_half)
qed

lemma base_phases_quarter:
  "base_phases 90 0 (3 / 100) (3 / 100) = [180, 180, 180, 0, 0, 0, 180, 180, 180]"
  by (simp add: base_phases_def rad2deg_def deg2rad_def dphi_x_def dphi_y_def wavenumber_def
      wavelength_def frequency_def sin_ninety py_mod_def)

lemma steering_quarter:
  "steering_phases 90 0 (Some (3 / 100)) (Some (3 / 100)) 290 =
     Inr ([[0, 180, 0], [0, 180, 0], [0, 180, 0]], \<lparr>rotation_deg = - 180, span_deg = 180\<rparr>)"
  by (simp add: steering_phases_def base_phases_quarter rotate_into_window_def py_mod_def
      np_argmax_def np_clip_def default_atol_def restore_grid_nine)

theorem steering_phases_raw_phase_witness:
  "(0::nat) < 3 \<and> (1::nat) < 3 \<and>
   base_phases 90 0 (3 / 100) (3 / 100) ! (3 * 0 + 1) = 180 \<and>
   idx_map ! (3 * 0 + 1) = (1, 0) \<and>
   steering_phases 90 0 (Some (3 / 100)) (Some (3 / 100)) 290 =
     Inr ([[0, 180, 0], [0, 180, 0], [0, 180, 0]], \<lparr>rotation_deg = - 180, span_deg = 180\<rparr>) \<and>
   [[0, 180, 0], [0, 180, 0], [0, 180, 0 :: real]] ! 1 ! 0 =
     np_clip (py_mod (base_phases 90 0 (3 / 100) (3 / 100) ! (3 * 0 + 1) + - 180) 360) 0 290"
proof -
  have i: "(0::nat) < 3" and j: "(1::nat) < 3" by simp_all
  note inst = steering_phases_raw_phase[OF i j, where theta_deg = 90 and phi_deg = 0
      and dx = "3 / 100" and dy = "3 / 100" and max_phase = 290, unfolded Let_def]
  have raw: "base_phases 90 0 (3 / 100) (3 / 100) ! (3 * 0 + 1) = 180"
    using inst by (simp add: sin_ninety py_mod_def)
  have idx: "idx_map ! (3 * 0 + 1) = (1, 0)" using inst by simp
  have "\<forall>phases diag.
      steering_phases 90 0 (Some (3 / 100)) (Some (3 / 100)) 290 = Inr (phases, diag) \<longrightarrow>
      phases ! 1 ! 0 =
        np_clip (py_mod (base_phases 90 0 (3 / 100) (3 / 100) ! (3 * 0 + 1) + rotation_deg diag) 360)
          0 290"
    using inst by blast
  from this[rule_format, OF steering_quarter]
  have grid: "[[0, 180, 0], [0, 180, 0], [0, 180, 0 :: real]] ! 1 ! 0 =
     np_clip (py_mod (base_phases 90 0 (3 / 100) (3 / 100) ! (3 * 0 + 1) + - 180) 360) 0 290"
    by (simp only: info.simps)
  show ?thesis using i j raw idx grid steering_quarter by blast
qed

subsection \<open>Voltage mapping\<close>

lemma fold_add_sum:
  "fold (\<lambda>i ret. ret + f i) [0..<n] (a::real) = a + sum f {..<n}"
  by (induction n) (simp_all add: algebra_simps)

lemma volt_map_polynomial:
  "volt_map phase coeffs = (\<Sum>i<length coeffs. coeffs ! i * phase ^ (length coeffs - 1 - i))"
  by (simp add: volt_map_def Let_def fold_add_sum)

lemma volt_map_identity: "volt_map phase [1, 0] = phase"
  by (simp add: volt_map_polynomial lessThan_Suc numeral_2_eq_2)

lemma volt_map_at_zero:
  "volt_map 0 coeffs = (if coeffs = [] then 0 else last coeffs)"
proof (cases "coeffs = []")
  case True
  then show ?thesis by (simp add: volt_map_polynomial)
next
  case False
  define n where "n = length coeffs - 1"
  have len: "length coeffs = Suc n" using False by (cases coeffs) (simp_all add: n_def)
  have "(\<Sum>i<Suc n. coeffs ! i * 0 ^ (n - i)) = coeffs ! n"
    by (simp add: power_0_left)
  then show ?thesis
    using False by (simp add: volt_map_polynomial len last_conv_nth)
qed

lemma steering_phases_grid:
  assumes "steering_phases t p dx dy W = Inr (phases, diag)"
  shows "\<exists>r0 r1 r2 r3 r4 r5 r6 r7 r8. phases = [[r0, r3, r6], [r1, r4, r7], [r2, r5, r8]]"
proof -
  from assms obtain rotated c sp b where
    r: "rotate_into_window b W default_atol = Inr (rotated, c, sp)"
    and b: "b = base_phases t p (case dx of None \<Rightarrow> 3 / 100 | Some d \<Rightarrow> d)
                  (case dy of None \<Rightarrow> 3 / 100 | Some d \<Rightarrow> d)"
    and ph: "phases = restore_grid rotated"
    by (auto simp: steering_phases_def Let_def split: sum.splits)
  note ok = rotate_into_window_success[OF r]
  show ?thesis unfolding ph ok(3) b base_phases_list
    by (simp add: restore_grid_nine)
qed

lemma ris_voltage_vector_success:
  assumes "ris_voltage_vector t p cd fi W = Inr (vv, phases, voltages, diag)"
  shows "\<exists>coeffs row. cd ''coefficients'' = Some coeffs \<and> np_index coeffs fi = Inr row \<and>
           steering_phases t p None None W = Inr (phases, diag) \<and>
           voltages = voltage_matrix row phases \<and> vv = flatten_reversed voltages"
  using assms
  by (auto simp: ris_voltage_vector_def Let_def split: option.splits sum.splits)


lemma flatten_reversed_nine:
  "flatten_reversed [[v0, v1, v2], [v3, v4, v5], [v6, v7, v8]] =
     [round2 v8, round2 v7, round2 v6, round2 v5, round2 v4, round2 v3,
      round2 v2, round2 v1, round2 v0]"
  by (simp add: flatten_reversed_def)

lemma base_phases_thirty:
  "base_phases 30 0 (3 / 100) (3 / 100) = [90, 90, 90, 0, 0, 0, 270, 270, 270]"
  by (simp add: base_phases_def rad2deg_def deg2rad_def dphi_x_def dphi_y_def wavenumber_def
      wavelength_def frequency_def sin_30 py_mod_def)

lemma steering_thirty:
  "steering_phases 30 0 None None 290 =
     Inr ([[180, 90, 0], [180, 90, 0], [180, 90, 0]], \<lparr>rotation_deg = - 270, span_deg = 180\<rparr>)"
  by (simp add: steering_phases_def base_phases_thirty rotate_into_window_def py_mod_def
      np_argmax_def np_clip_def default_atol_def restore_grid_nine)

lemma round2_int: "round2 (of_int z) = of_int z"
proof -
  have cast: "of_int z * 100 = (of_int (z * 100) :: real)" by simp
  have "round_half_even (of_int z * 100) = z * 100"
    unfolding cast round_half_even_def by (simp del: of_int_mult)
  then show ?thesis by (simp add: round2_def)
qed

lemma round2_values:
  "round2 0 = 0" "round2 90 = 90" "round2 180 = 180" "round2 (1 / 8) = 3 / 25"
  by (simp_all add: round2_def round_half_even_def)

text \<open>
  Claim C7. On every successful call the returned voltage vector has length 9 and is the
  row-major flattening of the voltage matrix with every entry rounded to 2 decimals,
  reversed: it lists the rounded cells from \<open>(2, 2)\<close> back to \<open>(0, 0)\<close>. The last two lines
  of the function do so for every phase matrix and coefficient row; under the identity
  coefficients \<open>[1, 0]\<close> a phase matrix \<open>p0 .. p8\<close> gives the vector
  \<open>round2 p8, .., round2 p0\<close>.
\<close>

theorem ris_voltage_vector_reversed_flattening:
  "(ris_voltage_vector theta_deg phi_deg coeff_data freq_idx max_phase =
        Inr (voltage_vector, phases, voltages, diag) \<longrightarrow>
      length voltage_vector = 9 \<and>
      voltage_vector = rev (concat (map (map round2) voltages)) \<and>
      voltage_vector = map (\<lambda>(r, c). round2 (voltages ! r ! c))
        [(2, 2), (2, 1), (2, 0), (1, 2), (1, 1), (1, 0), (0, 2), (0, 1), (0, 0)]) \<and>
   flatten_reversed (voltage_matrix coeffs pm) =
     rev (concat (map (map (\<lambda>p. round2 (volt_map p coeffs))) pm)) \<and>
   flatten_reversed (voltage_matrix [1, 0] [[p0, p1, p2], [p3, p4, p5], [p6, p7, p8]]) =
     [round2 p8, round2 p7, round2 p6, round2 p5, round2 p4, round2 p3,
      round2 p2, round2 p1, round2 p0]"
proof -
  have a: "length voltage_vector = 9 \<and>
      voltage_vector = rev (concat (map (map round2) voltages)) \<and>
      voltage_vector = map (\<lambda>(r, c). round2 (voltages ! r ! c))
        [(2, 2), (2, 1), (2, 0), (1, 2), (1, 1), (1, 0), (0, 2), (0, 1), (0, 0)]"
    if run: "ris_voltage_vector theta_deg phi_deg coeff_data freq_idx max_phase =
        Inr (voltage_vector, phases, voltages, diag)"
  proof -
    from ris_voltage_vector_success[OF run] obtain row where
      st: "steering_phases theta_deg phi_deg None None max_phase = Inr (phases, diag)"
      and vo: "voltages = voltage_matrix row phases"
      and vv: "voltage_vector = flatten_reversed voltages"
      by blast
    from steering_phases_grid[OF st] obtain r0 r1 r2 r3 r4 r5 r6 r7 r8 where
      ph: "phases = [[r0, r3, r6], [r1, r4, r7], [r2, r5, r8]]" by blast
    show ?thesis
      unfolding vv vo ph by (simp add: voltage_matrix_def flatten_reversed_def)
  qed
  have b: "flatten_reversed (voltage_matrix coeffs pm) =
     rev (concat (map (map (\<lambda>p. round2 (volt_map p coeffs))) pm))"
    by (simp add: flatten_reversed_def voltage_matrix_def o_def)
  have c: "flatten_reversed (voltage_matrix [1, 0] [[p0, p1, p2], [p3, p4, p5], [p6, p7, p8]]) =
     [round2 p8, round2 p7, round2 p6, round2 p5, round2 p4, round2 p3,
      round2 p2, round2 p1, round2 p0]"
    by (simp add: voltage_matrix_def volt_map_identity flatten_reversed_nine)
  show ?thesis using a b c by blast
qed

theorem ris_voltage_vector_reversed_flattening_witness:
  "ris_voltage_vector 30 0 [''coefficients'' \<mapsto> [[1, 0]]] 0 290 =
     Inr ([0, 90, 180, 0, 90, 180, 0, 90, 180],
          [[180, 90, 0], [180, 90, 0], [180, 90, 0]],
          [[180, 90, 0], [180, 90, 0], [180, 90, 0]],
          \<lparr>rotation_deg = - 270, span_deg = 180\<rparr>) \<and>
   length [0, 90, 180, 0, 90, 180, 0, 90, 180 :: real] = 9 \<and>
   [0, 90, 180, 0, 90, 180, 0, 90, 180] =
     rev (concat (map (map round2) [[180, 90, 0], [180, 90, 0], [180, 90, 0]])) \<and>
   flatten_reversed (voltage_matrix [1, 0] [[1, 2, 3], [4, 5, 6], [7, 8, 9]]) =
     [9, 8, 7, 6, 5, 4, 3, 2, 1]"
proof -
  have run: "ris_voltage_vector 30 0 [''coefficients'' \<mapsto> [[1, 0]]] 0 290 =
     Inr ([0, 90, 180, 0, 90, 180, 0, 90, 180],
          [[180, 90, 0], [180, 90, 0], [180, 90, 0]],
          [[180, 90, 0], [180, 90, 0], [180, 90, 0]],
          \<lparr>rotation_deg = - 270, span_deg = 180\<rparr>)"
    by (simp add: ris_voltage_vector_def steering_thirty np_index_def voltage_matrix_def
        volt_map_identity flatten_reversed_def round2_values)
  note inst = ris_voltage_vector_reversed_flattening[where theta_deg = 30 and phi_deg = 0
      and coeff_data = "[''coefficients'' \<mapsto> [[1, 0]]]" and freq_idx = 0 and max_phase = 290
      and voltage_vector = "[0, 90, 180, 0, 90, 180, 0, 90, 180]"
      and phases = "[[180, 90, 0], [180, 90, 0], [180, 90, 0]]"
      and voltages = "[[180, 90, 0], [180, 90, 0], [180, 90, 0]]"
      and diag = "\<lparr>rotation_deg = - 270, span_deg = 180\<rparr>"
      and ?p0.0 = 1 and ?p1.0 = 2 and ?p2.0 = 3 and ?p3.0 = 4 and ?p4.0 = 5 and ?p5.0 = 6
      and ?p6.0 = 7 and ?p7.0 = 8 and ?p8.0 = 9 and coeffs = "[]" and pm = "[]"]
  have r: "round2 1 = 1" "round2 2 = 2" "round2 3 = 3" "round2 4 = 4" "round2 5 = 5"
    "round2 6 = 6" "round2 7 = 7" "round2 8 = 8" "round2 9 = 9"
    using round2_int[of 1] round2_int[of 2] round2_int[of 3] round2_int[of 4] round2_int[of 5]
      round2_int[of 6] round2_int[of 7] round2_int[of 8] round2_int[of 9] by simp_all
  have "length [0, 90, 180, 0, 90, 180, 0, 90, 180 :: real] = 9"
    and "[0, 90, 180, 0, 90, 180, 0, 90, 180] =
     rev (concat (map (map round2) [[180, 90, 0], [180, 90, 0], [180, 90, 0]]))"
    using inst run by blast+
  moreover have "flatten_reversed (voltage_matrix [1, 0] [[1, 2, 3], [4, 5, 6], [7, 8, 9]]) =
     [round2 9, round2 8, round2 7, round2 6, round2 5, round2 4, round2 3, round2 2, round2 1]"
    using inst by blast
  then have "flatten_reversed (voltage_matrix [1, 0] [[1, 2, 3], [4, 5, 6], [7, 8, 9]]) =
     [9, 8, 7, 6, 5, 4, 3, 2, 1]"
    by (simp only: r)
  ultimately show ?thesis using run
    \<open>flatten_reversed (voltage_matrix [1, 0] [[1, 2, 3], [4, 5, 6], [7, 8, 9]]) =
     [9, 8, 7, 6, 5, 4, 3, 2, 1]\<close> by blast
qed


lemma base_phases_broadside:
  "base_phases 0 p dx dy = [0, 0, 0, 0, 0, 0, 0, 0, 0]"
  by (simp add: base_phases_def rad2deg_def deg2rad_def dphi_x_def dphi_y_def py_mod_def)

lemma rotate_zeros:
  "rotate_into_window [0, 0, 0, 0, 0, 0, 0, 0, 0] W default_atol =
     (if 0 \<le> W + default_atol
      then Inr ([min 0 W, min 0 W, min 0 W, min 0 W, min 0 W, min 0 W, min 0 W, min 0 W, min 0 W],
                0, 0)
      else Inl (WindowError 0 W))"
  by (simp add: rotate_into_window_def py_mod_def np_argmax_def np_clip_def round2_values)

lemma steering_phases_broadside:
  "steering_phases 0 p dx dy W =
     (if 0 \<le> W + default_atol
      then Inr (replicate 3 (replicate 3 (min 0 W)), \<lparr>rotation_deg = 0, span_deg = 0\<rparr>)
      else Inl (WindowError 0 W))"
  by (simp add: steering_phases_def base_phases_broadside rotate_zeros restore_grid_nine
      numeral_3_eq_3)

text \<open>
  Claim C5, as amended. With \<open>theta = 0\<close>, any \<open>phi\<close> (50 degrees included), the default
  spacing and frequency and a window width that is not negative, every successful call
  returns the zero phase matrix and nine equal voltages, each the constant coefficient of
  the selected polynomial rounded to 2 decimals. Whatever the coefficients, the vector is
  not within 1 volt of the reference vector entry by entry.
\<close>

theorem ris_voltage_vector_broadside:
  assumes "ris_voltage_vector 0 phi_deg coeff_data freq_idx max_phase =
             Inr (voltage_vector, phases, voltages, diag)"
    and "0 \<le> max_phase"
  shows "phases = replicate 3 (replicate 3 0) \<and>
         (\<exists>coeffs row. coeff_data ''coefficients'' = Some coeffs \<and>
            np_index coeffs freq_idx = Inr row \<and>
            voltage_vector = replicate 9 (round2 (if row = [] then 0 else last row))) \<and>
         voltage_vector ! 0 = voltage_vector ! 1 \<and>
         \<not> list_all2 (\<lambda>v r. \<bar>v - r\<bar> \<le> 1) voltage_vector reference_vector"
proof -
  from ris_voltage_vector_success[OF assms(1)] obtain coeffs row where
    cd: "coeff_data ''coefficients'' = Some coeffs" and row: "np_index coeffs freq_idx = Inr row"
    and st: "steering_phases 0 phi_deg None None max_phase = Inr (phases, diag)"
    and vo: "voltages = voltage_matrix row phases"
    and vv: "voltage_vector = flatten_reversed voltages"
    by blast
  have m: "min 0 max_phase = 0" using assms(2) by simp
  have ph: "phases = replicate 3 (replicate 3 0)"
    using st unfolding steering_phases_broadside m by (simp split: if_splits)
  have vec: "voltage_vector = replicate 9 (round2 (if row = [] then 0 else last row))"
    unfolding vv vo ph
    by (simp add: voltage_matrix_def flatten_reversed_def volt_map_at_zero numeral_3_eq_3
        eval_nat_numeral)
  have far: "\<not> (\<bar>v - 78 / 10\<bar> \<le> 1 \<and> \<bar>v - 5\<bar> \<le> 1)" for v :: real
    by (auto simp: abs_le_iff)
  have "\<not> list_all2 (\<lambda>v r. \<bar>v - r\<bar> \<le> 1) voltage_vector reference_vector"
    unfolding vec reference_vector_def using far
    by (simp add: eval_nat_numeral)
  then show ?thesis using ph cd row vec by (auto simp: eval_nat_numeral)
qed

theorem ris_voltage_vector_broadside_witness:
  "ris_voltage_vector 0 50 [''coefficients'' \<mapsto> [[2, 1, 1 / 8]]] 0 290 =
     Inr (replicate 9 (3 / 25), replicate 3 (replicate 3 0), replicate 3 (replicate 3 (1 / 8)),
          \<lparr>rotation_deg = 0, span_deg = 0\<rparr>) \<and> (0::real) \<le> 290 \<and>
   replicate 9 (3 / 25 :: real) ! 0 = replicate 9 (3 / 25) ! 1 \<and>
   \<not> list_all2 (\<lambda>v r. \<bar>v - r\<bar> \<le> 1) (replicate 9 (3 / 25)) reference_vector"
proof -
  have run: "ris_voltage_vector 0 50 [''coefficients'' \<mapsto> [[2, 1, 1 / 8]]] 0 290 =
     Inr (replicate 9 (3 / 25), replicate 3 (replicate 3 0), replicate 3 (replicate 3 (1 / 8)),
          \<lparr>rotation_deg = 0, span_deg = 0\<rparr>)"
    by (simp add: ris_voltage_vector_def steering_phases_broadside default_atol_def np_index_def
        voltage_matrix_def volt_map_at_zero flatten_reversed_def round2_values eval_nat_numeral)
  have w: "(0::real) \<le> 290" by simp
  from ris_voltage_vector_broadside[OF run w]
  show ?thesis using run w by blast
qed

text \<open>
  Claim C5 as stated fails for every coefficient archive and frequency index: no successful
  call at \<open>theta = 0\<close>, \<open>phi = 50\<close>, \<open>max_phase = 290\<close> returns a vector within 1 volt
  (hence within any rounding tolerance) of the reference vector.
\<close>

theorem ris_voltage_vector_reference_counterexample:
  "\<not> (\<exists>coeff_data freq_idx voltage_vector phases voltages diag.
        ris_voltage_vector 0 50 coeff_data freq_idx 290 =
          Inr (voltage_vector, phases, voltages, diag) \<and>
        list_all2 (\<lambda>v r. \<bar>v - r\<bar> \<le> 1) voltage_vector reference_vector)"
proof
  assume "\<exists>coeff_data freq_idx voltage_vector phases voltages diag.
        ris_voltage_vector 0 50 coeff_data freq_idx 290 =
          Inr (voltage_vector, phases, voltages, diag) \<and>
        list_all2 (\<lambda>v r. \<bar>v - r\<bar> \<le> 1) voltage_vector reference_vector"
  then obtain coeff_data freq_idx voltage_vector phases voltages diag where
    run: "ris_voltage_vector 0 50 coeff_data freq_idx 290 =
          Inr (voltage_vector, phases, voltages, diag)"
    and near: "list_all2 (\<lambda>v r. \<bar>v - r\<bar> \<le> 1) voltage_vector reference_vector"
    by blast
  from ris_voltage_vector_success[OF run] obtain coeffs row where
    st: "steering_phases 0 50 None None 290 = Inr (phases, diag)"
    and vo: "voltages = voltage_matrix row phases"
    and vv: "voltage_vector = flatten_reversed voltages"
    by blast
  have ph: "phases = replicate 3 (replicate 3 0)"
    using st unfolding steering_phases_broadside by (simp split: if_splits)
  have vec: "voltage_vector = replicate 9 (round2 (volt_map 0 row))"
    unfolding vv vo ph
    by (simp add: voltage_matrix_def flatten_reversed_def numeral_3_eq_3 eval_nat_numeral)
  have far: "\<not> (\<bar>v - 78 / 10\<bar> \<le> 1 \<and> \<bar>v - 5\<bar> \<le> 1)" for v :: real
    by linarith
  show False
    using near far[of "round2 (volt_map 0 row)"] unfolding vec reference_vector_def
    by (simp add: eval_nat_numeral)
qed


text \<open>
  Claim C6, as amended. The voltage matrix a successful call returns is the elementwise image
  of the phase matrix under the selected calibration polynomial
  \<open>sum_i coeffs[i] * phase^(num - 1 - i)\<close>, not rounded; the rounding to 2 decimals is
  applied to the entries of the returned voltage vector only.
\<close>

theorem ris_voltage_vector_matrix_unrounded:
  assumes "ris_voltage_vector theta_deg phi_deg coeff_data freq_idx max_phase =
             Inr (voltage_vector, phases, voltages, diag)"
  shows "\<exists>coeffs row. coeff_data ''coefficients'' = Some coeffs \<and>
           np_index coeffs freq_idx = Inr row \<and>
           voltages = map (map (\<lambda>p. \<Sum>i<length row. row ! i * p ^ (length row - 1 - i))) phases \<and>
           voltage_vector = rev (concat (map (map round2) voltages))"
proof -
  from ris_voltage_vector_success[OF assms] obtain coeffs row where
    cd: "coeff_data ''coefficients'' = Some coeffs" and row: "np_index coeffs freq_idx = Inr row"
    and vo: "voltages = voltage_matrix row phases"
    and vv: "voltage_vector = flatten_reversed voltages"
    by blast
  have "voltages = map (map (\<lambda>p. \<Sum>i<length row. row ! i * p ^ (length row - 1 - i))) phases"
    unfolding vo voltage_matrix_def volt_map_polynomial ..
  then show ?thesis using cd row vv by (auto simp: flatten_reversed_def)
qed

theorem ris_voltage_vector_matrix_unrounded_witness:
  "ris_voltage_vector 0 0 [''coefficients'' \<mapsto> [[2, 1, 1 / 8]]] 0 290 =
     Inr (replicate 9 (3 / 25), replicate 3 (replicate 3 0), replicate 3 (replicate 3 (1 / 8)),
          \<lparr>rotation_deg = 0, span_deg = 0\<rparr>) \<and>
   (\<exists>coeffs row. [''coefficients'' \<mapsto> [[2, 1, 1 / 8 :: real]]] ''coefficients'' = Some coeffs \<and>
      np_index coeffs 0 = Inr row \<and>
      replicate 3 (replicate 3 (1 / 8 :: real)) =
        map (map (\<lambda>p. \<Sum>i<length row. row ! i * p ^ (length row - 1 - i)))
          (replicate 3 (replicate 3 0)) \<and>
      replicate 9 (3 / 25) = rev (concat (map (map round2) (replicate 3 (replicate 3 (1 / 8))))))"
proof -
  have run: "ris_voltage_vector 0 0 [''coefficients'' \<mapsto> [[2, 1, 1 / 8]]] 0 290 =
     Inr (replicate 9 (3 / 25), replicate 3 (replicate 3 0), replicate 3 (replicate 3 (1 / 8)),
          \<lparr>rotation_deg = 0, span_deg = 0\<rparr>)"
    by (simp add: ris_voltage_vector_def steering_phases_broadside default_atol_def np_index_def
        voltage_matrix_def volt_map_at_zero flatten_reversed_def round2_values eval_nat_numeral)
  from ris_voltage_vector_matrix_unrounded[OF run]
  show ?thesis using run by blast
qed

text \<open>
  Claim C6 as stated fails when a polynomial value has more than 2 decimals: with the
  constant coefficient 1/8 and broadside steering the returned matrix holds 0.125 in every
  cell, while the vector holds the rounded 0.12.
\<close>

theorem ris_voltage_vector_matrix_rounded_counterexample:
  "ris_voltage_vector 0 0 [''coefficients'' \<mapsto> [[2, 1, 1 / 8]]] 0 290 =
     Inr (replicate 9 (3 / 25), replicate 3 (replicate 3 0), replicate 3 (replicate 3 (1 / 8)),
          \<lparr>rotation_deg = 0, span_deg = 0\<rparr>) \<and>
   replicate 3 (replicate 3 (1 / 8 :: real)) \<noteq>
     map (map round2) (replicate 3 (replicate 3 (1 / 8)))"
  by (simp add: ris_voltage_vector_def steering_phases_broadside default_atol_def np_index_def
      voltage_matrix_def volt_map_at_zero flatten_reversed_def round2_values eval_nat_numeral)

subsection \<open>Calibration catalog\<close>

lemma round2_settings:
  "round2 (39 / 5) = 39 / 5" "round2 5 = 5" "round2 0 = 0" "round2 6 = 6"
  "round2 (24 / 5) = 24 / 5"
  by (simp_all add: round2_def round_half_even_def)

text \<open>
  Claim C9. The claim is that two qualifying records with the same (elevation, azimuth)
  pair both appear in the returned catalog. On a directory of two such snapshots, each
  with a 9-element settings vector, the code returns no catalog: the two tuples agree on
  elevation, azimuth and label, so \<open>entries.sort()\<close> compares the two numpy vectors,
  and taking the truth value of the elementwise result raises \<open>ValueError\<close>.
\<close>

theorem load_data_duplicate_angles_raise:
  "load_data_from_directory fmt [(''a.npz'', snapshot_a), (''b.npz'', snapshot_b)] =
     Inl AmbiguousTruthValue"
  by (simp add: load_data_from_directory_def snapshot_a_def snapshot_b_def item_def
      sort_entries_def suffix_to_prefix)

lemma load_data_distinct_angles:
  "load_data_from_directory fmt [(''a.npz'', snapshot_a), (''notes.txt'', Map.empty),
       (''c.npz'', snapshot_c)] =
     Inr ([make_label fmt (- 45) 0, make_label fmt 0 50],
          map_of [(make_label fmt 0 50,
                    \<lparr>vector = [39 / 5, 5, 0, 39 / 5, 5, 0, 39 / 5, 5, 0],
                     azimuth = 50, elevation = 0\<rparr>),
                  (make_label fmt (- 45) 0,
                    \<lparr>vector = [6, 6, 6, 24 / 5, 24 / 5, 24 / 5, 0, 0, 0],
                     azimuth = 0, elevation = - 45\<rparr>)])"
  by (simp add: load_data_from_directory_def snapshot_a_def snapshot_c_def item_def
      sort_entries_def round2_settings suffix_to_prefix)

subsection \<open>Not-a-number inputs\<close>


lemma base_phases_nf_nan:
  assumes "theta_deg = NaN \<or> phi_deg = NaN"
  shows "base_phases_nf theta_deg phi_deg dx dy = replicate 9 NaN"
proof -
  have x: "dphi_x_nf theta_deg phi_deg dx = NaN"
    using assms by (cases theta_deg; cases phi_deg) (auto simp: dphi_x_nf_def)
  have y: "dphi_y_nf theta_deg phi_deg dy = NaN"
    using assms by (cases theta_deg; cases phi_deg) (auto simp: dphi_y_nf_def)
  show ?thesis by (simp add: base_phases_nf_def x y eval_nat_numeral)
qed

lemma rotate_nan:
  "rotate_into_window_nf (replicate 9 NaN) W atol = Inl (WindowErrorNaN W)"
  by (simp add: rotate_into_window_nf_def nf_sort_def nf_argmax_def eval_nat_numeral)


lemma finite_values_Fin: "finite_values (map Fin xs) = xs"
  by (induction xs) simp_all

lemma nf_sort_Fin: "nf_sort (map Fin xs) = map Fin (sort xs)"
  by (simp add: nf_sort_def finite_values_Fin filter_empty_conv)

lemma nf_diff_Fin: "nf_diff (map Fin xs) = map Fin (np_diff xs)"
  by (induction xs rule: np_diff.induct) simp_all

lemma nf_argmax_from_Fin:
  "nf_argmax_from best (Fin bv) i (map Fin xs) = argmax_from best bv i xs"
  by (induction xs arbitrary: best bv i) (simp_all add: not_le)

lemma nf_argmax_Fin: "nf_argmax (map Fin xs) = np_argmax xs"
  by (cases xs) (simp_all add: nf_argmax_def np_argmax_def nf_argmax_from_Fin)

lemma rotate_into_window_nf_Fin:
  "rotate_into_window_nf (map Fin angles) W atol =
     (case rotate_into_window angles W atol of
        Inl e \<Rightarrow> Inl e
      | Inr (rotated, c, s) \<Rightarrow> Inr (map Fin rotated, Fin c, Fin s))"
proof (cases "angles = []")
  case True
  then show ?thesis by (simp add: rotate_into_window_nf_def rotate_into_window_def nf_sort_def)
next
  case False
  define a where "a = sort (map (\<lambda>x. py_mod x 360) angles)"
  have ne: "a \<noteq> []" using False by (cases a) (auto simp: a_def dest: arg_cong[where f = length])
  have srt: "nf_sort (map (nf1 (\<lambda>x. py_mod x 360)) (map Fin angles)) = map Fin a"
    by (simp add: a_def nf_sort_Fin[symmetric] o_def)
  have hd0: "map Fin a ! 0 = Fin (a ! 0)" using ne by (cases a) simp_all
  have app: "map Fin a @ [nf2 (+) (map Fin a ! 0) (Fin 360)] = map Fin (a @ [a ! 0 + 360])"
    by (simp add: hd0)
  define k where "k = np_argmax (np_diff (a @ [a ! 0 + 360]))"
  have klt: "k < length (np_diff (a @ [a ! 0 + 360]))"
    unfolding k_def using ne by (intro np_argmax_first_max(1)) (simp add: np_diff_circular circular_gaps_def)
  have st: "(k + 1) mod length a < length a" using ne by simp
  show ?thesis
    using klt st ne
    unfolding rotate_into_window_nf_def rotate_into_window_def Let_def srt app nf_diff_Fin
      nf_argmax_Fin a_def[symmetric] k_def[symmetric]
    by (simp add: o_def)
qed


lemma base_phases_nf_Fin:
  "base_phases_nf (Fin t) (Fin p) dx dy = map Fin (base_phases t p dx dy)"
  by (simp add: base_phases_nf_def base_phases_def dphi_x_nf_def dphi_y_nf_def dphi_x_def
      dphi_y_def)

lemma restore_grid_nf_nine:
  "restore_grid_nf [r0, r1, r2, r3, r4, r5, r6, r7, r8] =
     [[r0, r3, r6], [r1, r4, r7], [r2, r5, r8]]"
  by (simp add: restore_grid_nf_def idx_map_def numeral_3_eq_3 numeral_2_eq_2)

lemma steering_phases_nf_Fin:
  "steering_phases_nf (Fin t) (Fin p) dx dy W =
     (case steering_phases t p dx dy W of
        Inl e \<Rightarrow> Inl e
      | Inr (phases, diag) \<Rightarrow>
          Inr (map (map Fin) phases,
               \<lparr>rotation_deg_nf = Fin (rotation_deg diag), span_deg_nf = Fin (span_deg diag)\<rparr>))"
proof -
  define b where "b = base_phases t p (case dx of None \<Rightarrow> 3 / 100 | Some d \<Rightarrow> d)
      (case dy of None \<Rightarrow> 3 / 100 | Some d \<Rightarrow> d)"
  have grid: "restore_grid_nf (map Fin rotated) = map (map Fin) (restore_grid rotated)"
    if "rotate_into_window b W default_atol = Inr (rotated, c, s)" for rotated c s
    unfolding rotate_into_window_success(3)[OF that] b_def base_phases_list
    by (simp add: restore_grid_nine restore_grid_nf_nine)
  show ?thesis
    unfolding steering_phases_nf_def steering_phases_def Let_def base_phases_nf_Fin
      rotate_into_window_nf_Fin b_def[symmetric]
    using grid by (auto split: sum.splits)
qed

text \<open>
  Claim C8, as amended. When the elevation or the azimuth is NaN, all nine raw phases that
  \<open>steering_phases\<close> computes are NaN (that part raises nothing), and the window fitting
  it then applies raises the infeasibility \<open>ValueError\<close>, because the test
  \<open>span <= window_width + atol\<close> is false for a NaN span: no phase matrix is returned.
\<close>

theorem steering_phases_nan_raises:
  assumes "theta_deg = NaN \<or> phi_deg = NaN"
  shows "base_phases_nf theta_deg phi_deg spacing_x spacing_y = replicate 9 NaN \<and>
         steering_phases_nf theta_deg phi_deg dx dy max_phase = Inl (WindowErrorNaN max_phase)"
  using assms by (simp add: steering_phases_nf_def base_phases_nf_nan rotate_nan)

theorem steering_phases_nan_raises_witness:
  "(NaN = NaN \<or> Fin 50 = NaN) \<and>
   base_phases_nf NaN (Fin 50) (3 / 100) (3 / 100) = replicate 9 NaN \<and>
   steering_phases_nf NaN (Fin 50) None None 290 = Inl (WindowErrorNaN 290)"
proof -
  have h: "NaN = NaN \<or> Fin 50 = NaN" by simp
  from steering_phases_nan_raises[OF h, of "3 / 100" "3 / 100" None None 290]
  show ?thesis using h by blast
qed

text \<open>
  Claim C8 as stated fails: with a NaN azimuth (elevation 0, default spacing and window)
  \<open>steering_phases\<close> raises instead of returning NaN phases.
\<close>

theorem steering_phases_nan_counterexample:
  "steering_phases_nf (Fin 0) NaN None None 290 = Inl (WindowErrorNaN 290)"
  by (simp add: steering_phases_nf_def base_phases_nf_nan rotate_nan)

subsection \<open>Order of the catalog\<close>

lemma entry_lt_distinct:
  assumes "angles_of x \<noteq> angles_of y"
  shows "entry_lt x y = Inr (angles_before x y)"
  using assms
  by (cases x; cases y) (auto simp: angles_of_def angles_before_def)

lemma entry_lt_tie:
  assumes "angles_of x = angles_of y" and "fst (snd (snd x)) = fst (snd (snd y))"
    and "length (snd (snd (snd x))) \<noteq> 1"
  shows "entry_lt x y = Inl AmbiguousTruthValue"
proof -
  obtain el az l v where x: "x = (el, az, l, v)" by (cases x) auto
  obtain el' az' l' w where y: "y = (el', az', l', w)" by (cases y) auto
  have "array_cmp (=) v w = Inl AmbiguousTruthValue"
    using assms(3) unfolding x
    by (cases "((=) :: real \<Rightarrow> real \<Rightarrow> bool, v, w)" rule: array_cmp.cases) auto
  then show ?thesis using assms(1,2) by (simp add: x y angles_of_def)
qed

lemma angles_before_trans:
  "angles_before x y \<Longrightarrow> angles_before y z \<Longrightarrow> angles_before x z"
  by (auto simp: angles_before_def)

lemma angles_before_total:
  "angles_of x \<noteq> angles_of y \<Longrightarrow> \<not> angles_before x y \<Longrightarrow> angles_before y x"
  by (auto simp: angles_before_def angles_of_def)

lemma angles_before_irrefl: "angles_before x y \<Longrightarrow> angles_of x \<noteq> angles_of y"
  by (auto simp: angles_before_def angles_of_def)

lemma insert_entry_distinct:
  assumes "sorted_wrt angles_before acc" and "angles_of x \<notin> angles_of ` set acc"
  shows "\<exists>zs. insert_entry x acc = Inr zs \<and> sorted_wrt angles_before zs \<and>
              set zs = insert x (set acc) \<and> length zs = Suc (length acc)"
  using assms
proof (induction acc)
  case Nil
  then show ?case by simp
next
  case (Cons y ys)
  have ne: "angles_of x \<noteq> angles_of y" using Cons.prems(2) by auto
  show ?case
  proof (cases "angles_before x y")
    case True
    have "\<forall>z\<in>set ys. angles_before x z"
      using Cons.prems(1) True by (auto intro: angles_before_trans)
    then show ?thesis
      using True Cons.prems(1) by (simp add: entry_lt_distinct[OF ne])
  next
    case False
    from Cons.IH obtain zs where zs: "insert_entry x ys = Inr zs" "sorted_wrt angles_before zs"
        "set zs = insert x (set ys)" "length zs = Suc (length ys)"
      using Cons.prems by auto
    have "angles_before y x" using ne False angles_before_total[of x y] by simp
    then have "\<forall>z\<in>set zs. angles_before y z"
      using Cons.prems(1) zs(3) by auto
    then show ?thesis
      using False zs by (auto simp: entry_lt_distinct[OF ne])
  qed
qed

lemma insert_entry_tie:
  assumes "sorted_wrt angles_before acc"
    and "y \<in> set acc" and "angles_of x = angles_of y"
    and "fst (snd (snd x)) = fst (snd (snd y))"
    and "length (snd (snd (snd x))) \<noteq> 1"
  shows "insert_entry x acc = Inl AmbiguousTruthValue"
  using assms(1,2)
proof (induction acc)
  case Nil
  then show ?case by simp
next
  case (Cons z zs)
  show ?case
  proof (cases "z = y")
    case True
    then show ?thesis using entry_lt_tie[OF assms(3,4,5)] by simp
  next
    case False
    then have y: "y \<in> set zs" using Cons.prems(2) by simp
    then have zy: "angles_before z y" using Cons.prems(1) by auto
    then have ne: "angles_of x \<noteq> angles_of z"
      using angles_before_irrefl[OF zy] assms(3) by simp
    have "\<not> angles_before x z"
    proof
      assume "angles_before x z"
      then have "angles_before x y" using zy by (rule angles_before_trans)
      then have "angles_of x \<noteq> angles_of y" by (rule angles_before_irrefl)
      then show False using assms(3) by simp
    qed
    moreover have "insert_entry x zs = Inl AmbiguousTruthValue"
      using Cons.IH Cons.prems(1) y by simp
    ultimately show ?thesis by (simp add: entry_lt_distinct[OF ne])
  qed
qed

lemma sort_entries_from_distinct:
  assumes "sorted_wrt angles_before acc"
    and "distinct (map angles_of es)"
    and "angles_of ` set acc \<inter> angles_of ` set es = {}"
  shows "\<exists>ss. sort_entries_from acc es = Inr ss \<and> sorted_wrt angles_before ss \<and>
              set ss = set acc \<union> set es \<and> length ss = length acc + length es"
  using assms
proof (induction es arbitrary: acc)
  case Nil
  then show ?case by simp
next
  case (Cons x xs)
  have "angles_of x \<notin> angles_of ` set acc" using Cons.prems(3) by auto
  from insert_entry_distinct[OF Cons.prems(1) this] obtain zs where
    zs: "insert_entry x acc = Inr zs" "sorted_wrt angles_before zs"
        "set zs = insert x (set acc)" "length zs = Suc (length acc)"
    by blast
  have "angles_of ` set zs \<inter> angles_of ` set xs = {}"
    using Cons.prems(2,3) zs(3) by auto
  from Cons.IH[OF zs(2) _ this] Cons.prems(2) obtain ss where
    "sort_entries_from zs xs = Inr ss" "sorted_wrt angles_before ss"
    "set ss = set zs \<union> set xs" "length ss = length zs + length xs"
    by auto
  then show ?case using zs by auto
qed

lemma sorted_angles_distinct:
  "sorted_wrt angles_before zs \<Longrightarrow> distinct (map angles_of zs)"
  by (induction zs) (auto dest: angles_before_irrefl)

lemma sort_entries_from_tie:
  assumes "sorted_wrt angles_before acc"
    and "\<not> distinct (map angles_of (acc @ es))"
    and "\<forall>e\<in>set es. length (snd (snd (snd e))) \<noteq> 1"
    and "labels_agree (set acc \<union> set es)"
  shows "sort_entries_from acc es = Inl AmbiguousTruthValue"
  using assms
proof (induction es arbitrary: acc)
  case Nil
  then show ?case using sorted_angles_distinct[of acc] by simp
next
  case (Cons x xs)
  have len: "length (snd (snd (snd x))) \<noteq> 1" using Cons.prems(3) by simp
  show ?case
  proof (cases "angles_of x \<in> angles_of ` set acc")
    case True
    then obtain y where y: "y \<in> set acc" "angles_of x = angles_of y" by auto
    have "x \<in> set acc \<union> set (x # xs)" "y \<in> set acc \<union> set (x # xs)" using y(1) by simp_all
    then have "fst (snd (snd x)) = fst (snd (snd y))"
      using Cons.prems(4) y(2) unfolding labels_agree_def by blast
    then have "insert_entry x acc = Inl AmbiguousTruthValue"
      using insert_entry_tie[OF Cons.prems(1) y] len by blast
    then show ?thesis by simp
  next
    case False
    from insert_entry_distinct[OF Cons.prems(1) False] obtain zs where
      zs: "insert_entry x acc = Inr zs" "sorted_wrt angles_before zs"
          "set zs = insert x (set acc)"
      by blast
    have seteq: "set zs \<union> set xs = set acc \<union> set (x # xs)"
      using zs(3) by auto
    have la: "labels_agree (set zs \<union> set xs)"
      unfolding seteq by (rule Cons.prems(4))
    have keys: "map angles_of (acc @ x # xs) = map angles_of acc @ angles_of x # map angles_of xs"
      by simp
    have nd: "\<not> distinct (map angles_of (zs @ xs))"
    proof
      assume d: "distinct (map angles_of (zs @ xs))"
      have dx: "distinct (map angles_of xs)" using d by simp
      have dis: "angles_of ` set zs \<inter> angles_of ` set xs = {}" using d by simp
      have "angles_of x \<in> angles_of ` set zs" using zs(3) by simp
      then have a: "angles_of x \<notin> angles_of ` set xs" using dis by blast
      have "angles_of ` set acc \<subseteq> angles_of ` set zs" using zs(3) by blast
      then have b: "angles_of ` set acc \<inter> angles_of ` set xs = {}" using dis by blast
      have "distinct (map angles_of (acc @ x # xs))"
        unfolding keys distinct_append
        using sorted_angles_distinct[OF Cons.prems(1)] dx a b False by simp
      then show False using Cons.prems(2) by blast
    qed
    have "\<forall>e\<in>set xs. length (snd (snd (snd e))) \<noteq> 1" using Cons.prems(3) by simp
    from Cons.IH[OF zs(2) nd this la]
    show ?thesis using zs(1) by simp
  qed
qed


lemma collect_entries_labels:
  "collect_entries fmt folder = Inr es \<Longrightarrow>
   \<forall>e\<in>set es. fst (snd (snd e)) = make_label fmt (fst e) (fst (snd e))"
proof (induction folder arbitrary: es)
  case Nil
  then show ?case by simp
next
  case (Cons f rest)
  obtain fname data where f: "f = (fname, data)" by (cases f) auto
  show ?case
    using Cons.prems Cons.IH unfolding f
    by (auto split: if_splits option.splits sum.splits)
qed

lemma collect_entries_labels_agree:
  assumes "collect_entries fmt folder = Inr es"
  shows "labels_agree (set es)"
  unfolding labels_agree_def
proof (intro ballI impI)
  fix x y assume "x \<in> set es" "y \<in> set es" and eq: "angles_of x = angles_of y"
  then have "fst (snd (snd x)) = make_label fmt (fst x) (fst (snd x))"
    and "fst (snd (snd y)) = make_label fmt (fst y) (fst (snd y))"
    using collect_entries_labels[OF assms] by blast+
  moreover have "fst x = fst y" "fst (snd x) = fst (snd y)"
    using eq by (simp_all add: angles_of_def)
  ultimately show "fst (snd (snd x)) = fst (snd (snd y))" by simp
qed

lemma load_data_sorted_when_distinct:
  assumes "collect_entries fmt folder = Inr es" and "distinct (map angles_of es)"
  shows "\<exists>ss. sort_entries es = Inr ss \<and> sorted_wrt angles_before ss \<and> set ss = set es \<and>
              length ss = length es \<and>
              (\<exists>data. load_data_from_directory fmt folder =
                 Inr (map (\<lambda>e. fst (snd (snd e))) ss, data))"
proof -
  from sort_entries_from_distinct[of "[]" es] assms(2) obtain ss where
    ss: "sort_entries es = Inr ss" "sorted_wrt angles_before ss" "set ss = set es"
        "length ss = length es"
    by (auto simp: sort_entries_def)
  have "map (\<lambda>(el, az, label, v). label) ss = map (\<lambda>e. fst (snd (snd e))) ss"
    by (rule map_cong) auto
  then show ?thesis
    using ss assms(1) by (simp add: load_data_from_directory_def)
qed

lemma load_data_raises_on_tie:
  assumes "collect_entries fmt folder = Inr es" and "\<not> distinct (map angles_of es)"
    and "\<forall>e\<in>set es. length (snd (snd (snd e))) \<noteq> 1"
  shows "load_data_from_directory fmt folder = Inl AmbiguousTruthValue"
proof -
  have "labels_agree (set [] \<union> set es)"
    using collect_entries_labels_agree[OF assms(1)] by simp
  then have "sort_entries es = Inl AmbiguousTruthValue"
    unfolding sort_entries_def
    using assms(2,3) by (intro sort_entries_from_tie) simp_all
  then show ?thesis using assms(1) by (simp add: load_data_from_directory_def)
qed

end
